theory Spec2Isabelle
  imports Main
begin

section \<open>Python values used by generate.py\<close>

text \<open>
  A Python \<open>str\<close> is modelled as a \<open>string\<close>; a character is read as the code point
  below 256 that it denotes. Code points from 256 on (other Unicode spaces and decimal
  digits) are outside the character type.
\<close>

text \<open>
  The exceptions that a run can raise. \<open>ReadError\<close> stands for whatever opening or
  reading an input file raises (\<open>OSError\<close>, \<open>UnicodeDecodeError\<close>, \<open>csv.Error\<close>).
\<close>

datatype py_error =
  KeyError | AttributeError | TypeError | ValueError | OSError | EOFError | ReadError

text \<open>\<open>str.isspace\<close> on one character: the code points below 256 that Python counts
  as whitespace.\<close>

definition py_isspace :: "char \<Rightarrow> bool" where
  "py_isspace c = (of_char c \<in> {9, 10, 11, 12, 13, 28, 29, 30, 31, 32, 133, 160 :: nat})"

text \<open>Removing the characters of a class at both ends of a string.\<close>

definition strip_with :: "(char \<Rightarrow> bool) \<Rightarrow> string \<Rightarrow> string" where
  "strip_with P s = rev (dropWhile P (rev (dropWhile P s)))"

text \<open>\<open>str.strip()\<close>: whitespace removed at both ends.\<close>

definition py_strip :: "string \<Rightarrow> string" where
  "py_strip s = strip_with py_isspace s"

text \<open>
  The whitespace that \<open>int\<close> skips around a number: of the code points below 128 only
  tab, newline, vertical tab, form feed, carriage return and space (the separators 28 to
  31, which \<open>str.strip\<close> removes, stay and make the string invalid); of those from 128 on,
  every Unicode space.
\<close>

definition int_isspace :: "char \<Rightarrow> bool" where
  "int_isspace c = (of_char c \<in> {9, 10, 11, 12, 13, 32, 133, 160 :: nat})"

definition is_digit :: "char \<Rightarrow> bool" where
  "is_digit c = (48 \<le> (of_char c :: nat) \<and> (of_char c :: nat) \<le> 57)"

definition digit_value :: "char \<Rightarrow> int" where
  "digit_value c = int (of_char c) - 48"

definition digits_value :: "string \<Rightarrow> int" where
  "digits_value ds = foldl (\<lambda>a c. 10 * a + digit_value c) 0 ds"

text \<open>
  The digit part of an integer literal as \<open>int(str)\<close> scans it: digits, with single
  underscores allowed between two digits only. The first argument is the previous
  character (\<open>None\<close> at the start).
\<close>

fun scan_digits :: "char option \<Rightarrow> string \<Rightarrow> bool" where
  "scan_digits prev [] = (prev \<noteq> None \<and> prev \<noteq> Some (CHR ''_''))"
| "scan_digits prev (c # cs) =
     (if c = CHR ''_'' then prev \<noteq> None \<and> prev \<noteq> Some (CHR ''_'') \<and> scan_digits (Some c) cs
      else is_digit c \<and> scan_digits (Some c) cs)"

text \<open>
  The interpreter's cap on the digits of a decimal string that \<open>int\<close> converts
  (\<open>sys.int_info.default_max_str_digits\<close>): beyond it \<open>int\<close> raises \<open>ValueError\<close>.
\<close>

definition max_str_digits :: nat where
  "max_str_digits = 4300"

text \<open>
  \<open>int(s)\<close> for a string, base 10: surrounding whitespace is dropped, one sign is
  allowed, then the digit part, whose digits (underscores apart, leading zeros
  included) may not be more than the cap. \<open>None\<close> stands for the \<open>ValueError\<close> that
  Python raises.
\<close>

definition py_int :: "string \<Rightarrow> int option" where
  "py_int s =
     (let t = strip_with int_isspace s;
          neg = (case t of [] \<Rightarrow> False | c # _ \<Rightarrow> c = CHR ''-'');
          body = (case t of [] \<Rightarrow> [] | c # r \<Rightarrow> if c = CHR ''+'' \<or> c = CHR ''-'' then r else t);
          digits = filter (\<lambda>c. c \<noteq> CHR ''_'') body
      in if scan_digits None body \<and> length digits \<le> max_str_digits
         then Some ((if neg then - 1 else 1) * digits_value digits)
         else None)"

section \<open>Rows of a csv.DictReader\<close>

text \<open>
  A row is a dictionary from column names to cells. Looking a column up gives \<open>None\<close>
  when the key is absent (Python raises \<open>KeyError\<close>), \<open>Some None\<close> when the cell is
  Python's \<open>None\<close> (the reader's fill value for a short record) and \<open>Some (Some s)\<close>
  for a string cell.
\<close>

type_synonym cell = "string option"
type_synonym row = "string \<rightharpoonup> cell"

text \<open>
  \<open>dict(zip(fieldnames, record))\<close>, then every field name beyond the record's length
  set to \<open>None\<close>; a later duplicate of a field name overwrites an earlier one. Cells
  beyond the field names go under the key \<open>None\<close>, which no column name reads.
\<close>

definition dict_row :: "string list \<Rightarrow> string list \<Rightarrow> row" where
  "dict_row fns rec =
     map_of (rev (zip fns (map Some rec @ replicate (length fns - length rec) None)))"

section \<open>compute_grades\<close>

text \<open>
  The loop of \<open>compute_grades\<close> over the response columns, with the two loop variables
  \<open>result\<close> and \<open>has_any\<close> passed along.
\<close>

fun compute_loop :: "row \<Rightarrow> string list \<Rightarrow> int list \<Rightarrow> bool \<Rightarrow> py_error + (int list \<times> bool)" where
  "compute_loop row [] result has_any = Inr (result, has_any)"
| "compute_loop row (col # cols) result has_any =
     (case row col of
        None \<Rightarrow> Inl KeyError
      | Some cell \<Rightarrow>
          (let val = py_strip (case cell of None \<Rightarrow> [] | Some s \<Rightarrow> s)
           in if val = [] then compute_loop row cols (result @ [0]) has_any
              else (case py_int val of
                      Some v \<Rightarrow>
                        if 0 \<le> v \<and> v \<le> 4 then compute_loop row cols (result @ [v]) True
                        else compute_loop row cols (result @ [0]) has_any
                    | None \<Rightarrow> compute_loop row cols (result @ [0]) has_any)))"

text \<open>The result is \<open>Some result\<close> when \<open>has_any\<close> is set and Python's \<open>None\<close> otherwise.\<close>

definition compute_grades :: "row \<Rightarrow> string list \<Rightarrow> py_error + int list option" where
  "compute_grades row response_columns =
     (case compute_loop row response_columns [] False of
        Inl e \<Rightarrow> Inl e
      | Inr (result, has_any) \<Rightarrow> Inr (if has_any then Some result else None))"


section \<open>Dictionaries in insertion order\<close>

text \<open>
  A Python \<open>dict\<close> keeps its keys in insertion order; assigning to a key that is
  present replaces the value in place. Lookup is \<open>map_of\<close>.
\<close>

type_synonym ('k, 'v) dict = "('k \<times> 'v) list"

fun dict_set :: "('k, 'v) dict \<Rightarrow> 'k \<Rightarrow> 'v \<Rightarrow> ('k, 'v) dict" where
  "dict_set [] k v = [(k, v)]"
| "dict_set ((k', v') # d) k v =
     (if k' = k then (k, v) # d else (k', v') # dict_set d k v)"

section \<open>parse_questions\<close>

text \<open>
  \<open>pattern.match(h)\<close> for \<open>^Question (\d+)(?:\.(\d+))? Response$\<close>, giving group 1 on a
  match. After the prefix the first group takes every digit that follows (the next
  character of a match is \<open>.\<close> or a space); the optional group is taken when a dot and
  at least one digit follow; \<open>$\<close> matches at the end and before one final newline.
\<close>

definition match_question :: "string \<Rightarrow> string option" where
  "match_question h =
     (if take 9 h = ''Question '' then
        (let r = drop 9 h;
             g1 = takeWhile is_digit r;
             r1 = dropWhile is_digit r;
             r2 = (case r1 of
                     [] \<Rightarrow> r1
                   | c # t \<Rightarrow>
                       if c = CHR ''.'' \<and> takeWhile is_digit t \<noteq> [] then dropWhile is_digit t
                       else r1)
         in if g1 \<noteq> [] \<and> (r2 = '' Response'' \<or> r2 = '' Response'' @ [CHR 0x0A])
            then Some g1 else None)
      else None)"

text \<open>
  The form \<open>Question <int>[.<int>] Response\<close> of a header, written out, with the leading
  integer's digits as second argument: the prefix, one or more digits, optionally a dot
  and one or more digits, the suffix, and nothing else.
\<close>

definition pattern_matches :: "string \<Rightarrow> string \<Rightarrow> bool" where
  "pattern_matches h g1 \<longleftrightarrow>
     g1 \<noteq> [] \<and> (\<forall>c\<in>set g1. is_digit c) \<and>
     (\<exists>sub.
        (sub = [] \<or> (\<exists>g2. g2 \<noteq> [] \<and> (\<forall>c\<in>set g2. is_digit c) \<and> sub = CHR ''.'' # g2)) \<and>
        h = ''Question '' @ g1 @ sub @ '' Response'')"

text \<open>
  The loop of \<open>parse_questions\<close>. \<open>questions[main_q].append(h)\<close> on a
  \<open>defaultdict(list)\<close> extends the list of a key in place and inserts a new key at the
  end. \<open>int(m.group(1))\<close> is \<open>py_int\<close>, whose failure would be a \<open>ValueError\<close>.
\<close>

fun parse_loop :: "string list \<Rightarrow> (int, string list) dict \<Rightarrow> py_error + (int, string list) dict" where
  "parse_loop [] questions = Inr questions"
| "parse_loop (h # hs) questions =
     (case match_question h of
        None \<Rightarrow> parse_loop hs questions
      | Some g \<Rightarrow>
          (case py_int g of
             None \<Rightarrow> Inl ValueError
           | Some main_q \<Rightarrow>
               parse_loop hs
                 (dict_set questions main_q
                    ((case map_of questions main_q of None \<Rightarrow> [] | Some l \<Rightarrow> l) @ [h]))))"

definition parse_questions :: "string list \<Rightarrow> py_error + (int, string list) dict" where
  "parse_questions headers = parse_loop headers []"

section \<open>main\<close>

text \<open>
  A CSV file as \<open>csv.DictReader\<close> sees it: the field names (\<open>None\<close> for an empty
  file) and the records after the header line. The reader skips empty records.
\<close>

record csv_table =
  fieldnames :: "string list option"
  records :: "string list list"

definition reader_rows :: "csv_table \<Rightarrow> row list" where
  "reader_rows t =
     (case fieldnames t of
        None \<Rightarrow> []
      | Some fns \<Rightarrow> map (dict_row fns) (filter (\<lambda>r. r \<noteq> []) (records t)))"

text \<open>The loop over the scores file that builds \<open>sid_to_submission\<close>.\<close>

fun scores_loop :: "row list \<Rightarrow> (string, string) dict \<Rightarrow> py_error + (string, string) dict" where
  "scores_loop [] sid_to_submission = Inr sid_to_submission"
| "scores_loop (row # rows) sid_to_submission =
     (case row ''SID'' of
        None \<Rightarrow> Inl KeyError
      | Some c1 \<Rightarrow>
          (case row ''Submission ID'' of
             None \<Rightarrow> Inl KeyError
           | Some c2 \<Rightarrow>
               (let sid = py_strip (case c1 of None \<Rightarrow> [] | Some s \<Rightarrow> s);
                    sub_id = py_strip (case c2 of None \<Rightarrow> [] | Some s \<Rightarrow> s)
                in if sid \<noteq> [] \<and> sub_id \<noteq> []
                   then scores_loop rows (dict_set sid_to_submission sid sub_id)
                   else scores_loop rows sid_to_submission)))"

type_synonym grades = "(string, int list) dict"

text \<open>\<open>{sub_id: [0] * num_parts for sub_id in sid_to_submission.values()}\<close>\<close>

definition default_grades :: "(string, string) dict \<Rightarrow> nat \<Rightarrow> grades" where
  "default_grades sid_to_submission num_parts =
     foldl (\<lambda>g sub_id. dict_set g sub_id (replicate num_parts 0)) [] (map snd sid_to_submission)"

text \<open>
  The loop over the metadata rows for one question. \<open>.strip()\<close> on a \<open>None\<close> cell is an
  \<open>AttributeError\<close>.
\<close>

fun rows_loop :: "(string, string) dict \<Rightarrow> string list \<Rightarrow> row list \<Rightarrow> grades \<Rightarrow> py_error + grades" where
  "rows_loop sid_to_submission response_cols [] grades = Inr grades"
| "rows_loop sid_to_submission response_cols (row # rows) grades =
     (case row ''Student ID'' of
        None \<Rightarrow> Inl KeyError
      | Some None \<Rightarrow> Inl AttributeError
      | Some (Some c) \<Rightarrow>
          (case map_of sid_to_submission (py_strip c) of
             None \<Rightarrow> rows_loop sid_to_submission response_cols rows grades
           | Some submission_id \<Rightarrow>
               (case compute_grades row response_cols of
                  Inl e \<Rightarrow> Inl e
                | Inr None \<Rightarrow> rows_loop sid_to_submission response_cols rows grades
                | Inr (Some part_grades) \<Rightarrow>
                    rows_loop sid_to_submission response_cols rows
                      (dict_set grades submission_id part_grades))))"

text \<open>\<open>any(any(g > 0 for g in arr) for arr in grades.values())\<close>\<close>

definition any_positive :: "grades \<Rightarrow> bool" where
  "any_positive grades = list_ex (\<lambda>arr. list_ex (\<lambda>g. g > 0) arr) (map snd grades)"

text \<open>
  What a run does to the outside, in order. \<open>Write_file folder q grades num_parts\<close> is
  the file \<open>q<q>.js\<close> in the folder; its text is the literal of \<open>grades\<close> in dictionary
  order followed by the template instantiated with \<open>num_parts\<close>.
\<close>

datatype event =
    Print_usage string
  | Prompt
  | Makedirs string
  | Print_found "int list"
  | Print_skipped int
  | Write_file string int grades nat
  | Print_written int nat nat

text \<open>
  The loop over \<open>sorted(questions)\<close>: the events of the loop and the exception that
  ended it, if any. The last argument says whether the output file of a question can be
  opened for writing.
\<close>

fun questions_loop ::
  "(int \<Rightarrow> bool) \<Rightarrow> string \<Rightarrow> (string, string) dict \<Rightarrow> row list \<Rightarrow> (int, string list) dict \<Rightarrow>
   int list \<Rightarrow> event list \<times> py_error option" where
  "questions_loop write_ok folder_name sid_to_submission rows questions [] = ([], None)"
| "questions_loop write_ok folder_name sid_to_submission rows questions (q_num # qs) =
     (case map_of questions q_num of
        None \<Rightarrow> ([], Some KeyError)
      | Some response_cols \<Rightarrow>
          (let num_parts = length response_cols
           in case rows_loop sid_to_submission response_cols rows
                     (default_grades sid_to_submission num_parts) of
                Inl e \<Rightarrow> ([], Some e)
              | Inr grades \<Rightarrow>
                  if \<not> any_positive grades then
                    (case questions_loop write_ok folder_name sid_to_submission rows questions qs of
                       (evs, r) \<Rightarrow> (Print_skipped q_num # evs, r))
                  else if \<not> write_ok q_num then ([], Some OSError)
                  else
                    (case questions_loop write_ok folder_name sid_to_submission rows questions qs of
                       (evs, r) \<Rightarrow>
                         (Write_file folder_name q_num grades num_parts
                            # Print_written q_num (length grades) num_parts # evs, r))))"

text \<open>
  The surroundings of a run: \<open>sys.argv\<close>, the line that \<open>input()\<close> reads (\<open>None\<close> at
  end of input), whether \<open>os.makedirs\<close> succeeds, what opening a CSV path and reading it
  to the end gives (\<open>None\<close> when opening or reading raises), and whether an output file
  can be written.
\<close>

record world =
  argv :: "string list"
  stdin_line :: "string option"
  makedirs_ok :: "string \<Rightarrow> bool"
  open_csv :: "string \<Rightarrow> csv_table option"
  write_ok :: "string \<Rightarrow> int \<Rightarrow> bool"

text \<open>\<open>main\<close> after the argument check: the events and the uncaught exception, if any.\<close>

definition run :: "world \<Rightarrow> string \<Rightarrow> string \<Rightarrow> event list \<times> py_error option" where
  "run w scores_csv metadata_csv =
     (case stdin_line w of
        None \<Rightarrow> ([Prompt], Some EOFError)
      | Some line \<Rightarrow>
          (let folder_name = py_strip line
           in if \<not> makedirs_ok w folder_name then ([Prompt], Some OSError)
              else
                (case open_csv w scores_csv of
                   None \<Rightarrow> ([Prompt, Makedirs folder_name], Some ReadError)
                 | Some scores \<Rightarrow>
                     (case scores_loop (reader_rows scores) [] of
                        Inl e \<Rightarrow> ([Prompt, Makedirs folder_name], Some e)
                      | Inr sid_to_submission \<Rightarrow>
                          (case open_csv w metadata_csv of
                             None \<Rightarrow> ([Prompt, Makedirs folder_name], Some ReadError)
                           | Some metadata \<Rightarrow>
                               (case fieldnames metadata of
                                  None \<Rightarrow> ([Prompt, Makedirs folder_name], Some TypeError)
                                | Some headers \<Rightarrow>
                                    (case parse_questions headers of
                                       Inl e \<Rightarrow> ([Prompt, Makedirs folder_name], Some e)
                                     | Inr questions \<Rightarrow>
                                         (case questions_loop (write_ok w folder_name) folder_name
                                                 sid_to_submission (reader_rows metadata) questions
                                                 (sort (map fst questions)) of
                                            (evs, r) \<Rightarrow>
                                              ([Prompt, Makedirs folder_name,
                                                Print_found (sort (map fst questions))] @ evs,
                                               r)))))))))"

text \<open>
  \<open>main\<close>: the exit status and the events. An uncaught exception ends the interpreter
  with status 1, as \<open>sys.exit(1)\<close> does; with an empty \<open>sys.argv\<close> the usage line
  itself fails on \<open>sys.argv[0]\<close>.
\<close>

definition main :: "world \<Rightarrow> nat \<times> event list" where
  "main w =
     (if length (argv w) \<noteq> 3 then
        (case argv w of
           [] \<Rightarrow> (1, [])
         | a0 # _ \<Rightarrow>
             (1, [Print_usage (''Usage: python '' @ a0 @ '' <scores_csv> <submission_metadata_csv>'')]))
      else
        (case run w (argv w ! 1) (argv w ! 2) of
           (evs, None) \<Rightarrow> (0, evs)
         | (evs, Some e) \<Rightarrow> (1, evs)))"

section \<open>Reading one cell\<close>

text \<open>
  A cell counts as a response when it is a string that, stripped of surrounding
  whitespace, \<open>int\<close> reads as an integer from 0 to 4; \<open>cell_grade\<close> is that integer,
  and 0 for every other cell.
\<close>

definition cell_valid :: "cell \<Rightarrow> bool" where
  "cell_valid cell =
     (case cell of
        None \<Rightarrow> False
      | Some s \<Rightarrow>
          (case py_int (py_strip s) of None \<Rightarrow> False | Some v \<Rightarrow> 0 \<le> v \<and> v \<le> 4))"

definition cell_grade :: "cell \<Rightarrow> int" where
  "cell_grade cell =
     (case cell of
        None \<Rightarrow> 0
      | Some s \<Rightarrow>
          (case py_int (py_strip s) of
             None \<Rightarrow> 0
           | Some v \<Rightarrow> if 0 \<le> v \<and> v \<le> 4 then v else 0))"

text \<open>The submission that a metadata row is for: the roster's entry for its student ID.\<close>

definition row_target :: "(string, string) dict \<Rightarrow> row \<Rightarrow> string option" where
  "row_target sid_to_submission row =
     (case row ''Student ID'' of
        Some (Some c) \<Rightarrow> map_of sid_to_submission (py_strip c)
      | _ \<Rightarrow> None)"

text \<open>The roster entry that a row of the scores file stores, if it stores one.\<close>

definition score_entry :: "row \<Rightarrow> (string \<times> string) option" where
  "score_entry row =
     (case (row ''SID'', row ''Submission ID'') of
        (Some c1, Some c2) \<Rightarrow>
          (let sid = py_strip (case c1 of None \<Rightarrow> [] | Some s \<Rightarrow> s);
               sub_id = py_strip (case c2 of None \<Rightarrow> [] | Some s \<Rightarrow> s)
           in if sid \<noteq> [] \<and> sub_id \<noteq> [] then Some (sid, sub_id) else None)
      | _ \<Rightarrow> None)"

section \<open>Properties of the string functions and of compute_grades\<close>

text \<open>The definitions that evaluating a concrete run unfolds.\<close>

lemmas eval_defs = compute_grades_def dict_row_def py_strip_def strip_with_def py_isspace_def
  int_isspace_def py_int_def max_str_digits_def is_digit_def digits_value_def digit_value_def
  default_grades_def row_target_def cell_valid_def score_entry_def


lemma rstrip_prefix_hd:
  "rev (dropWhile P (rev ys)) \<noteq> [] \<Longrightarrow> hd (rev (dropWhile P (rev ys))) = hd ys"
proof (induction ys rule: rev_induct)
  case Nil then show ?case by simp
next
  case (snoc x xs)
  then show ?case by (cases xs) (auto split: if_splits)
qed



lemma dropWhile_rstrip:
  "dropWhile P (rev (dropWhile P (rev (dropWhile P s)))) = rev (dropWhile P (rev (dropWhile P s)))"
proof (cases "rev (dropWhile P (rev (dropWhile P s))) = []")
  case True then show ?thesis unfolding True by simp
next
  case False
  then have ne: "dropWhile P s \<noteq> []" by (auto dest: set_dropWhileD)
  have "hd (rev (dropWhile P (rev (dropWhile P s)))) = hd (dropWhile P s)"
    using False by (rule rstrip_prefix_hd)
  moreover have "\<not> P (hd (dropWhile P s))" using ne by (rule hd_dropWhile)
  ultimately show ?thesis using False
    by (cases "rev (dropWhile P (rev (dropWhile P s)))") auto
qed

lemma strip_with_idem: "strip_with P (strip_with P s) = strip_with P s"
  unfolding strip_with_def by (simp add: dropWhile_rstrip)

lemma all_dropWhile_iff: "(\<forall>x\<in>set (dropWhile P s). P x) \<longleftrightarrow> (\<forall>x\<in>set s. P x)"
  by (induction s) auto

lemma py_strip_Nil_iff: "py_strip s = [] \<longleftrightarrow> (\<forall>c\<in>set s. py_isspace c)"
  unfolding py_strip_def strip_with_def by (simp add: dropWhile_eq_Nil_conv all_dropWhile_iff)

lemma py_int_Nil: "py_int [] = None"
  unfolding py_int_def strip_with_def by simp

lemma strip_with_no_space: "\<forall>c\<in>set s. \<not> P c \<Longrightarrow> strip_with P s = s"
proof -
  assume a: "\<forall>c\<in>set s. \<not> P c"
  have l: "dropWhile P s = s" using a by (cases s) auto
  have "\<forall>c\<in>set (rev s). \<not> P c" using a by simp
  then have "dropWhile P (rev s) = rev s" by (cases "rev s") auto
  then show ?thesis by (simp add: strip_with_def l)
qed


lemma compute_loop_step:
  assumes "row col = Some cell"
  shows "compute_loop row (col # cols) result has_any =
         compute_loop row cols (result @ [cell_grade cell]) (has_any \<or> cell_valid cell)"
proof (cases cell)
  case None
  then show ?thesis using assms
    by (simp add: cell_grade_def cell_valid_def py_strip_def strip_with_def)
next
  case (Some s)
  show ?thesis
  proof (cases "py_strip s = []")
    case True
    then show ?thesis using assms Some
      by (simp add: cell_grade_def cell_valid_def py_int_Nil)
  next
    case False
    then show ?thesis using assms Some
      by (auto simp: cell_grade_def cell_valid_def split: option.splits)
  qed
qed

lemma compute_loop_KeyError:
  "\<exists>c\<in>set cols. row c = None \<Longrightarrow> compute_loop row cols result has_any = Inl KeyError"
proof (induction cols arbitrary: result has_any)
  case Nil then show ?case by simp
next
  case (Cons col cols)
  show ?case
  proof (cases "row col")
    case None then show ?thesis by simp
  next
    case (Some cell)
    then have "\<exists>c\<in>set cols. row c = None" using Cons.prems by auto
    moreover have "compute_loop row (col # cols) result has_any =
        compute_loop row cols (result @ [cell_grade cell]) (has_any \<or> cell_valid cell)"
      using Some by (rule compute_loop_step)
    ultimately show ?thesis using Cons.IH by simp
  qed
qed

lemma compute_loop_eq:
  "\<forall>c\<in>set cols. row c \<noteq> None \<Longrightarrow>
   compute_loop row cols result has_any =
     Inr (result @ map (\<lambda>c. cell_grade (the (row c))) cols,
          has_any \<or> (\<exists>c\<in>set cols. cell_valid (the (row c))))"
proof (induction cols arbitrary: result has_any)
  case Nil then show ?case by simp
next
  case (Cons col cols)
  then obtain cell where c: "row col = Some cell" by auto
  have "\<forall>c\<in>set cols. row c \<noteq> None" using Cons.prems by simp
  moreover have "compute_loop row (col # cols) result has_any =
      compute_loop row cols (result @ [cell_grade cell]) (has_any \<or> cell_valid cell)"
    using c by (rule compute_loop_step)
  ultimately show ?case using Cons.IH c by auto
qed


lemma compute_loop_length:
  "compute_loop row cols result has_any = Inr (r, h) \<Longrightarrow> length r = length result + length cols"
proof (cases "\<forall>c\<in>set cols. row c \<noteq> None")
  case True
  assume "compute_loop row cols result has_any = Inr (r, h)"
  then show ?thesis using compute_loop_eq [OF True, of result has_any] by auto
next
  case False
  assume "compute_loop row cols result has_any = Inr (r, h)"
  moreover have "compute_loop row cols result has_any = Inl KeyError"
    using False by (intro compute_loop_KeyError) auto
  ultimately show ?thesis by simp
qed

lemma py_strip_pad:
  assumes "\<forall>c\<in>set w1. py_isspace c" and "\<forall>c\<in>set w2. py_isspace c"
  shows "py_strip (w1 @ s @ w2) = py_strip s"
proof -
  have l: "dropWhile py_isspace (w1 @ s @ w2) = dropWhile py_isspace (s @ w2)"
    using assms(1) by (simp add: dropWhile_append2)
  show ?thesis
  proof (cases "\<forall>c\<in>set s. py_isspace c")
    case True
    then have "\<forall>c\<in>set (w1 @ s @ w2). py_isspace c" using assms by auto
    then have "py_strip (w1 @ s @ w2) = []" by (simp only: py_strip_Nil_iff)
    moreover have "py_strip s = []" using True by (simp only: py_strip_Nil_iff)
    ultimately show ?thesis by simp
  next
    case False
    then have "dropWhile py_isspace (s @ w2) = dropWhile py_isspace s @ w2"
      by (auto simp: dropWhile_append1)
    moreover have "dropWhile py_isspace (rev w2 @ rev (dropWhile py_isspace s)) =
        dropWhile py_isspace (rev (dropWhile py_isspace s))"
      using assms(2) by (intro dropWhile_append2) simp
    ultimately show ?thesis using l unfolding py_strip_def strip_with_def by simp
  qed
qed

lemma digit_not_space: "is_digit d \<Longrightarrow> \<not> py_isspace d"
  by (auto simp: is_digit_def py_isspace_def)

lemma digit_not_int_space: "is_digit d \<Longrightarrow> \<not> int_isspace d"
  by (auto simp: is_digit_def int_isspace_def)

lemma py_int_digit: "is_digit d \<Longrightarrow> py_int [d] = Some (digit_value d)"
proof -
  assume d: "is_digit d"
  then have s: "strip_with int_isspace [d] = [d]"
    by (simp add: strip_with_def digit_not_int_space)
  have "d \<noteq> CHR ''+''" "d \<noteq> CHR ''-''" "d \<noteq> CHR ''_''"
    using d by (auto simp: is_digit_def)
  then show ?thesis using d by (simp add: py_int_def s digits_value_def max_str_digits_def)
qed


lemma compute_grades_eq:
  "\<forall>c\<in>set cols. row c \<noteq> None \<Longrightarrow>
   compute_grades row cols =
     Inr (if \<exists>c\<in>set cols. cell_valid (the (row c))
          then Some (map (\<lambda>c. cell_grade (the (row c))) cols) else None)"
  by (simp add: compute_grades_def compute_loop_eq)

lemma cell_grade_padded_digit:
  assumes "\<forall>c\<in>set w1. py_isspace c" and "\<forall>c\<in>set w2. py_isspace c"
    and "d \<in> set ''01234''"
  shows "cell_grade (Some (w1 @ d # w2)) = digit_value d \<and> cell_valid (Some (w1 @ d # w2))"
proof -
  have dig: "is_digit d" and rng: "0 \<le> digit_value d \<and> digit_value d \<le> 4"
    using assms(3) by (auto simp: is_digit_def digit_value_def)
  have "py_int (py_strip (w1 @ d # w2)) = py_int (py_strip (w1 @ [d] @ w2))"
    by simp
  also have "\<dots> = py_int (py_strip [d])"
    using assms(1,2) by (simp only: py_strip_pad)
  also have "\<dots> = py_int [d]"
    using dig by (simp add: py_strip_def strip_with_def digit_not_space)
  also have "\<dots> = Some (digit_value d)"
    using dig by (rule py_int_digit)
  finally show ?thesis using rng by (simp add: cell_grade_def cell_valid_def)
qed

lemma cell_grade_blank:
  "\<forall>c\<in>set s. py_isspace c \<Longrightarrow> cell_grade (Some s) = 0"
proof -
  assume "\<forall>c\<in>set s. py_isspace c"
  then have "py_strip s = []" by (simp only: py_strip_Nil_iff)
  then show ?thesis by (simp add: cell_grade_def py_int_Nil)
qed

text \<open>
  C2: for every cell, the grade that \<open>compute_grades\<close> computes for its column is the
  integer the cell parses as when that integer is between 0 and 4, and 0 for every other
  string, for a blank cell and for a \<open>None\<close> cell; no error is raised. A cell parses as
  what \<open>int\<close> reads in it once the surrounding whitespace is stripped, as the code
  strips it. The vector is the \<open>result\<close> of the loop, which \<open>compute_grades\<close> returns
  when \<open>has_any\<close> is set.
\<close>

theorem C2_cell_values:
  assumes "\<forall>c\<in>set cols. row c \<noteq> None"
  shows "\<exists>result has_any.
           compute_loop row cols [] False = Inr (result, has_any) \<and>
           compute_grades row cols = Inr (if has_any then Some result else None) \<and>
           length result = length cols \<and>
           (\<forall>i<length cols.
              result ! i =
                (case row (cols ! i) of
                   Some (Some s) \<Rightarrow>
                     (case py_int (py_strip s) of
                        Some v \<Rightarrow> if 0 \<le> v \<and> v \<le> 4 then v else 0
                      | None \<Rightarrow> 0)
                 | _ \<Rightarrow> 0))"
proof -
  let ?result = "map (\<lambda>c. cell_grade (the (row c))) cols"
  let ?has_any = "\<exists>c\<in>set cols. cell_valid (the (row c))"
  have loop: "compute_loop row cols [] False = Inr (?result, ?has_any)"
    using compute_loop_eq [OF assms, of "[]" False] by simp
  have grades: "compute_grades row cols = Inr (if ?has_any then Some ?result else None)"
    using loop by (simp add: compute_grades_def)
  have vals: "?result ! i =
      (case row (cols ! i) of
         Some (Some s) \<Rightarrow>
           (case py_int (py_strip s) of
                        Some v \<Rightarrow> if 0 \<le> v \<and> v \<le> 4 then v else 0
                      | None \<Rightarrow> 0)
       | _ \<Rightarrow> 0)" if "i < length cols" for i
  proof -
    have "row (cols ! i) \<noteq> None" using that assms by simp
    then show ?thesis using that by (auto simp: cell_grade_def split: option.splits)
  qed
  have len: "length ?result = length cols" by simp
  have "compute_loop row cols [] False = Inr (?result, ?has_any) \<and>
        compute_grades row cols = Inr (if ?has_any then Some ?result else None) \<and>
        length ?result = length cols \<and>
        (\<forall>i<length cols. ?result ! i =
           (case row (cols ! i) of
              Some (Some s) \<Rightarrow>
                (case py_int (py_strip s) of
                        Some v \<Rightarrow> if 0 \<le> v \<and> v \<le> 4 then v else 0
                      | None \<Rightarrow> 0)
            | _ \<Rightarrow> 0))"
    using loop grades vals len by blast
  then show ?thesis by blast
qed

theorem C2_cell_values_witness:
  "dict_row [''a'', ''b'', ''c'', ''d''] [''4'', ''7'', ''x''] ''a'' \<noteq> None \<and>
   dict_row [''a'', ''b'', ''c'', ''d''] [''4'', ''7'', ''x''] ''b'' \<noteq> None \<and>
   dict_row [''a'', ''b'', ''c'', ''d''] [''4'', ''7'', ''x''] ''c'' \<noteq> None \<and>
   dict_row [''a'', ''b'', ''c'', ''d''] [''4'', ''7'', ''x''] ''d'' \<noteq> None \<and>
   compute_grades (dict_row [''a'', ''b'', ''c'', ''d''] [''4'', ''7'', ''x''])
     [''a'', ''b'', ''c'', ''d''] = Inr (Some [4, 0, 0, 0])"
  using C2_cell_values [of "[''a'', ''b'', ''c'', ''d'']"
      "dict_row [''a'', ''b'', ''c'', ''d''] [''4'', ''7'', ''x'']"]
  by (simp add: eval_defs)

text \<open>
  C9: on a row that has every response column as a key, with cells that are arbitrary
  strings or \<open>None\<close>, \<open>compute_grades\<close> returns without an error; a \<open>None\<close> cell and a
  cell of whitespace only give grade 0; a digit from 0 to 4 surrounded by whitespace
  gives that digit, and counts as a response.
\<close>

theorem C9_total_blank_strip:
  assumes "\<forall>c\<in>set cols. row c \<noteq> None"
  shows "\<exists>result has_any.
           compute_loop row cols [] False = Inr (result, has_any) \<and>
           compute_grades row cols = Inr (if has_any then Some result else None) \<and>
           (\<forall>i<length cols. row (cols ! i) = Some None \<longrightarrow> result ! i = 0) \<and>
           (\<forall>i<length cols. \<forall>s.
              row (cols ! i) = Some (Some s) \<and> (\<forall>ch\<in>set s. py_isspace ch) \<longrightarrow> result ! i = 0) \<and>
           (\<forall>i<length cols. \<forall>w1 d w2.
              row (cols ! i) = Some (Some (w1 @ d # w2)) \<and>
              (\<forall>ch\<in>set w1. py_isspace ch) \<and> (\<forall>ch\<in>set w2. py_isspace ch) \<and>
              d \<in> set ''01234'' \<longrightarrow>
              result ! i = digit_value d \<and> has_any)"
proof -
  let ?result = "map (\<lambda>c. cell_grade (the (row c))) cols"
  let ?has_any = "\<exists>c\<in>set cols. cell_valid (the (row c))"
  have loop: "compute_loop row cols [] False = Inr (?result, ?has_any)"
    using compute_loop_eq [OF assms, of "[]" False] by simp
  have grades: "compute_grades row cols = Inr (if ?has_any then Some ?result else None)"
    using loop by (simp add: compute_grades_def)
  have none: "?result ! i = 0" if "i < length cols" "row (cols ! i) = Some None" for i
    using that by (simp add: cell_grade_def)
  have blank: "?result ! i = 0"
    if "i < length cols" "row (cols ! i) = Some (Some s)" "\<forall>ch\<in>set s. py_isspace ch" for i s
    using that by (simp add: cell_grade_blank)
  have digit: "?result ! i = digit_value d \<and> ?has_any"
    if "i < length cols" "row (cols ! i) = Some (Some (w1 @ d # w2))"
      "\<forall>ch\<in>set w1. py_isspace ch" "\<forall>ch\<in>set w2. py_isspace ch" "d \<in> set ''01234''"
    for i w1 d w2
  proof -
    have g: "cell_grade (Some (w1 @ d # w2)) = digit_value d \<and> cell_valid (Some (w1 @ d # w2))"
      using that(3,4,5) by (rule cell_grade_padded_digit)
    have "cols ! i \<in> set cols" using that(1) by simp
    then show ?thesis using g that(1,2) by (auto intro!: bexI [where x = "cols ! i"])
  qed
  have "compute_loop row cols [] False = Inr (?result, ?has_any) \<and>
        compute_grades row cols = Inr (if ?has_any then Some ?result else None) \<and>
        (\<forall>i<length cols. row (cols ! i) = Some None \<longrightarrow> ?result ! i = 0) \<and>
        (\<forall>i<length cols. \<forall>s.
           row (cols ! i) = Some (Some s) \<and> (\<forall>ch\<in>set s. py_isspace ch) \<longrightarrow> ?result ! i = 0) \<and>
        (\<forall>i<length cols. \<forall>w1 d w2.
           row (cols ! i) = Some (Some (w1 @ d # w2)) \<and>
           (\<forall>ch\<in>set w1. py_isspace ch) \<and> (\<forall>ch\<in>set w2. py_isspace ch) \<and>
           d \<in> set ''01234'' \<longrightarrow>
           ?result ! i = digit_value d \<and> ?has_any)"
    using loop grades none blank digit by blast
  then show ?thesis by blast
qed

theorem C9_total_blank_strip_witness:
  "dict_row [''a'', ''b'', ''c''] ['' 3 '', ''  ''] ''a'' \<noteq> None \<and>
   dict_row [''a'', ''b'', ''c''] ['' 3 '', ''  ''] ''b'' \<noteq> None \<and>
   dict_row [''a'', ''b'', ''c''] ['' 3 '', ''  ''] ''c'' \<noteq> None \<and>
   dict_row [''a'', ''b'', ''c''] ['' 3 '', ''  ''] ''c'' = Some None \<and>
   compute_grades (dict_row [''a'', ''b'', ''c''] ['' 3 '', ''  '']) [''a'', ''b'', ''c'']
     = Inr (Some [3, 0, 0])"
  using C9_total_blank_strip [of "[''a'', ''b'', ''c'']"
      "dict_row [''a'', ''b'', ''c''] ['' 3 '', ''  '']"]
  by (simp add: eval_defs)


section \<open>Properties of dictionaries and of parse_questions\<close>


lemma map_of_dict_set: "map_of (dict_set d k v) = (map_of d)(k \<mapsto> v)"
  by (induction d k v rule: dict_set.induct) auto

lemma keys_dict_set: "fst ` set (dict_set d k v) = insert k (fst ` set d)"
  by (induction d k v rule: dict_set.induct) auto

lemma distinct_dict_set: "distinct (map fst d) \<Longrightarrow> distinct (map fst (dict_set d k v))"
  by (induction d k v rule: dict_set.induct) (auto simp: keys_dict_set)



lemma scan_digits_all:
  "\<forall>c\<in>set ds. is_digit c \<Longrightarrow> ds \<noteq> [] \<or> (\<exists>p. prev = Some p \<and> is_digit p) \<Longrightarrow> scan_digits prev ds"
proof (induction ds arbitrary: prev)
  case Nil
  then show ?case by (auto simp: is_digit_def)
next
  case (Cons c cs)
  then have "c \<noteq> CHR ''_''" by (auto simp: is_digit_def)
  then show ?case using Cons by simp
qed

lemma py_int_digits_body:
  assumes "g \<noteq> []" and "\<forall>c\<in>set g. is_digit c"
  shows "py_int g =
     (if length g \<le> max_str_digits then Some (digits_value g) else None)"
proof -
  have s: "strip_with int_isspace g = g"
    using assms(2) by (intro strip_with_no_space) (auto dest: digit_not_int_space)
  obtain c r where g: "g = c # r" using assms(1) by (cases g) auto
  then have "is_digit c" using assms(2) by simp
  then have c: "c \<noteq> CHR ''+''" "c \<noteq> CHR ''-''" by (auto simp: is_digit_def)
  have f: "filter (\<lambda>c. c \<noteq> CHR ''_'') g = g"
    using assms(2) by (auto simp: filter_id_conv is_digit_def)
  have neg: "(case g of [] \<Rightarrow> False | c # _ \<Rightarrow> c = CHR ''-'') = False"
    using g c by simp
  have body: "(case g of [] \<Rightarrow> [] | c # r \<Rightarrow> if c = CHR ''+'' \<or> c = CHR ''-'' then r else g) = g"
    using g c by simp
  have "scan_digits None g" using assms by (intro scan_digits_all) auto
  then show ?thesis unfolding py_int_def s Let_def neg body f by simp
qed

lemma py_int_digits:
  assumes "g \<noteq> []" and "\<forall>c\<in>set g. is_digit c" and "length g \<le> max_str_digits"
  shows "py_int g = Some (digits_value g)"
  using py_int_digits_body [OF assms(1,2)] assms(3) by simp

lemma py_int_digits_cap:
  assumes "g \<noteq> []" and "\<forall>c\<in>set g. is_digit c" and "max_str_digits < length g"
  shows "py_int g = None"
  using py_int_digits_body [OF assms(1,2)] assms(3) by simp

text \<open>
  What the regular expression accepts: a header of the form, or a header of the form
  followed by one final newline.
\<close>

lemma match_question_sound:
  assumes "match_question h = Some g"
  shows "pattern_matches h g \<or> (\<exists>h'. h = h' @ [CHR 0x0A] \<and> pattern_matches h' g)"
proof -
  let ?r = "drop 9 h"
  let ?r1 = "dropWhile is_digit ?r"
  let ?r2 = "(case ?r1 of [] \<Rightarrow> ?r1
        | c # t \<Rightarrow> if c = CHR ''.'' \<and> takeWhile is_digit t \<noteq> [] then dropWhile is_digit t else ?r1)"
  from assms have pre: "take 9 h = ''Question ''"
    and g: "g = takeWhile is_digit ?r" and ne: "g \<noteq> []"
    and r2: "?r2 = '' Response'' \<or> ?r2 = '' Response'' @ [CHR 0x0A]"
    unfolding match_question_def Let_def by (auto split: if_splits)
  have h: "h = ''Question '' @ g @ ?r1"
    using pre g by (metis append_take_drop_id takeWhile_dropWhile_id)
  have dig: "\<forall>c\<in>set g. is_digit c" unfolding g by (auto dest: set_takeWhileD)
  have "\<exists>sub nl.
        (sub = [] \<or> (\<exists>g2. g2 \<noteq> [] \<and> (\<forall>c\<in>set g2. is_digit c) \<and> sub = CHR ''.'' # g2)) \<and>
        (nl = [] \<or> nl = [CHR 0x0A]) \<and> ?r1 = sub @ '' Response'' @ nl"
  proof (cases ?r1)
    case Nil
    show ?thesis using r2 unfolding Nil by simp
  next
    case (Cons c t)
    show ?thesis
    proof (cases "c = CHR ''.'' \<and> takeWhile is_digit t \<noteq> []")
      case True
      then have "dropWhile is_digit t = '' Response'' \<or> dropWhile is_digit t = '' Response'' @ [CHR 0x0A]"
        using r2 Cons by simp
      moreover have "?r1 = (CHR ''.'' # takeWhile is_digit t) @ dropWhile is_digit t"
        using Cons True by simp
      moreover have "\<forall>c\<in>set (takeWhile is_digit t). is_digit c" by (auto dest: set_takeWhileD)
      ultimately show ?thesis using True
        by (metis append_Nil2)
    next
      case False
      then have "?r1 = '' Response'' \<or> ?r1 = '' Response'' @ [CHR 0x0A]"
        using r2 Cons by auto
      then show ?thesis by (metis append_Nil append_Nil2)
    qed
  qed
  then obtain sub nl where
    sub: "sub = [] \<or> (\<exists>g2. g2 \<noteq> [] \<and> (\<forall>c\<in>set g2. is_digit c) \<and> sub = CHR ''.'' # g2)"
    and nl: "nl = [] \<or> nl = [CHR 0x0A]" and r1: "?r1 = sub @ '' Response'' @ nl"
    by blast
  have form: "pattern_matches (''Question '' @ g @ sub @ '' Response'') g"
    unfolding pattern_matches_def using ne dig sub by blast
  have "h = (''Question '' @ g @ sub @ '' Response'') @ nl"
    using h r1 by simp
  then show ?thesis using nl form by auto
qed

lemma match_question_form:
  assumes ne: "g \<noteq> []" and dig: "\<forall>c\<in>set g. is_digit c"
    and sub: "sub = [] \<or> (\<exists>g2. g2 \<noteq> [] \<and> (\<forall>c\<in>set g2. is_digit c) \<and> sub = CHR ''.'' # g2)"
    and nl: "nl = [] \<or> nl = [CHR 0x0A]"
    and h: "h = ''Question '' @ g @ sub @ '' Response'' @ nl"
  shows "match_question h = Some g"
proof -
  let ?rest = "sub @ '' Response'' @ nl"
  have r: "drop 9 h = g @ ?rest" and pre: "take 9 h = ''Question ''" unfolding h by simp_all
  have nd: "takeWhile is_digit ?rest = []" "dropWhile is_digit ?rest = ?rest"
    using sub by (auto simp: is_digit_def)
  have tw: "takeWhile is_digit (g @ ?rest) = g"
    using dig nd by (simp add: takeWhile_append2)
  have dw: "dropWhile is_digit (g @ ?rest) = ?rest"
    using dig nd by (simp add: dropWhile_append2)
  have r2: "(case ?rest of [] \<Rightarrow> ?rest
        | c # t \<Rightarrow> if c = CHR ''.'' \<and> takeWhile is_digit t \<noteq> [] then dropWhile is_digit t else ?rest)
      = '' Response'' @ nl"
  proof (cases "sub = []")
    case True
    then show ?thesis by simp
  next
    case False
    then obtain g2 where g2: "g2 \<noteq> []" "\<forall>c\<in>set g2. is_digit c" "sub = CHR ''.'' # g2"
      using sub by blast
    have nd2: "takeWhile is_digit ('' Response'' @ nl) = []"
      "dropWhile is_digit ('' Response'' @ nl) = '' Response'' @ nl"
      by (simp_all add: is_digit_def)
    have "takeWhile is_digit (g2 @ '' Response'' @ nl) = g2"
      using g2(2) nd2 by (simp add: takeWhile_append2)
    moreover have "dropWhile is_digit (g2 @ '' Response'' @ nl) = '' Response'' @ nl"
      using g2(2) nd2 by (simp add: dropWhile_append2)
    ultimately show ?thesis using g2 by simp
  qed
  show ?thesis
    unfolding match_question_def Let_def r tw dw r2 using pre ne nl by auto
qed

lemma match_question_complete:
  assumes "pattern_matches h g"
  shows "match_question h = Some g" and "match_question (h @ [CHR 0x0A]) = Some g"
proof -
  from assms obtain sub where ne: "g \<noteq> []" and dig: "\<forall>c\<in>set g. is_digit c"
    and sub: "sub = [] \<or> (\<exists>g2. g2 \<noteq> [] \<and> (\<forall>c\<in>set g2. is_digit c) \<and> sub = CHR ''.'' # g2)"
    and h: "h = ''Question '' @ g @ sub @ '' Response''"
    unfolding pattern_matches_def by blast
  have "h = ''Question '' @ g @ sub @ '' Response'' @ []" using h by simp
  then show "match_question h = Some g"
    using ne dig sub by (intro match_question_form [where nl = "[]"]) auto
  have "h @ [CHR 0x0A] = ''Question '' @ g @ sub @ '' Response'' @ [CHR 0x0A]" using h by simp
  then show "match_question (h @ [CHR 0x0A]) = Some g"
    using ne dig sub by (intro match_question_form [where nl = "[CHR 0x0A]"]) auto
qed

lemma match_question_digits:
  "match_question h = Some g \<Longrightarrow> g \<noteq> [] \<and> (\<forall>c\<in>set g. is_digit c)"
  using match_question_sound [of h g] unfolding pattern_matches_def by blast



lemma parse_loop_spec:
  assumes "\<forall>h\<in>set hs. \<forall>g. match_question h = Some g \<longrightarrow> length g \<le> max_str_digits"
  shows "\<exists>qs'. parse_loop hs qs = Inr qs' \<and>
     (distinct (map fst qs) \<longrightarrow> distinct (map fst qs')) \<and>
     (\<forall>N. map_of qs' N =
        (if filter (\<lambda>h. \<exists>g. match_question h = Some g \<and> digits_value g = N) hs = [] then map_of qs N
         else Some ((case map_of qs N of None \<Rightarrow> [] | Some l \<Rightarrow> l)
                    @ filter (\<lambda>h. \<exists>g. match_question h = Some g \<and> digits_value g = N) hs)))"
  using assms
proof (induction hs arbitrary: qs)
  case Nil
  then show ?case by simp
next
  case (Cons h hs)
  have cap: "\<forall>h\<in>set hs. \<forall>g. match_question h = Some g \<longrightarrow> length g \<le> max_str_digits"
    using Cons.prems by simp
  show ?case
  proof (cases "match_question h")
    case None
    then have nf: "\<And>N. filter (\<lambda>h. \<exists>g. match_question h = Some g \<and> digits_value g = N) (h # hs)
        = filter (\<lambda>h. \<exists>g. match_question h = Some g \<and> digits_value g = N) hs"
      by simp
    have step: "parse_loop (h # hs) qs = parse_loop hs qs" using None by simp
    show ?thesis unfolding step nf using Cons.IH [OF cap, of qs] .
  next
    case (Some g0)
    let ?q = "digits_value g0"
    let ?qs1 = "dict_set qs ?q ((case map_of qs ?q of None \<Rightarrow> [] | Some l \<Rightarrow> l) @ [h])"
    have "length g0 \<le> max_str_digits" using Cons.prems Some by simp
    then have int: "py_int g0 = Some ?q"
      using match_question_digits [OF Some] by (intro py_int_digits) auto
    have P: "\<And>N. (\<exists>g. match_question h = Some g \<and> digits_value g = N) \<longleftrightarrow> N = ?q"
      using Some by auto
    have step: "parse_loop (h # hs) qs = parse_loop hs ?qs1"
      using Some int by simp
    from Cons.IH [OF cap, of ?qs1] obtain qs' where
      r: "parse_loop hs ?qs1 = Inr qs'"
      and d: "distinct (map fst ?qs1) \<longrightarrow> distinct (map fst qs')"
      and m: "\<forall>N. map_of qs' N =
        (if filter (\<lambda>h. \<exists>g. match_question h = Some g \<and> digits_value g = N) hs = [] then map_of ?qs1 N
         else Some ((case map_of ?qs1 N of None \<Rightarrow> [] | Some l \<Rightarrow> l)
                    @ filter (\<lambda>h. \<exists>g. match_question h = Some g \<and> digits_value g = N) hs))"
      by blast
    have d': "distinct (map fst qs) \<longrightarrow> distinct (map fst qs')"
      using d by (simp add: distinct_dict_set)
    have m': "map_of qs' N =
        (if filter (\<lambda>h. \<exists>g. match_question h = Some g \<and> digits_value g = N) (h # hs) = [] then map_of qs N
         else Some ((case map_of qs N of None \<Rightarrow> [] | Some l \<Rightarrow> l)
                    @ filter (\<lambda>h. \<exists>g. match_question h = Some g \<and> digits_value g = N) (h # hs)))" for N
    proof (cases "N = ?q")
      case True
      then show ?thesis using m [rule_format, of N] P [of N]
        by (auto simp: map_of_dict_set)
    next
      case False
      then show ?thesis using m [rule_format, of N] P [of N]
        by (auto simp: map_of_dict_set)
    qed
    show ?thesis unfolding step using r d' m' by blast
  qed
qed

lemma parse_loop_ValueError:
  "\<exists>h\<in>set hs. \<exists>g. match_question h = Some g \<and> max_str_digits < length g \<Longrightarrow>
   parse_loop hs qs = Inl ValueError"
proof (induction hs arbitrary: qs)
  case Nil
  then show ?case by simp
next
  case (Cons h hs)
  show ?case
  proof (cases "match_question h")
    case None
    then have "\<exists>h\<in>set hs. \<exists>g. match_question h = Some g \<and> max_str_digits < length g"
      using Cons.prems by auto
    then show ?thesis using Cons.IH None by simp
  next
    case (Some g0)
    show ?thesis
    proof (cases "max_str_digits < length g0")
      case True
      then have "py_int g0 = None"
        using match_question_digits [OF Some] by (intro py_int_digits_cap) auto
      then show ?thesis using Some by simp
    next
      case False
      then have "py_int g0 = Some (digits_value g0)"
        using match_question_digits [OF Some] by (intro py_int_digits) auto
      moreover have "\<exists>h\<in>set hs. \<exists>g. match_question h = Some g \<and> max_str_digits < length g"
        using Cons.prems Some False by auto
      ultimately show ?thesis using Cons.IH Some by simp
    qed
  qed
qed

text \<open>
  C6, as stated, fails: a header of the form whose question number has 4301 digits makes
  \<open>int\<close>, and with it \<open>parse_questions\<close>, raise \<open>ValueError\<close>, so no mapping is
  returned; and a header that ends in a newline after \<open>Response\<close>, which is not of the
  form, is put in a group, since \<open>$\<close> also matches before a final newline.
\<close>

theorem C6_counterexample:
  "parse_questions [''Question '' @ replicate 4301 (CHR ''1'') @ '' Response''] = Inl ValueError \<and>
   parse_questions [''Question 1 Response'' @ [CHR 0x0A] ]
     = Inr [(1, [''Question 1 Response'' @ [CHR 0x0A] ])] \<and>
   \<not> pattern_matches (''Question 1 Response'' @ [CHR 0x0A]) ''1''"
proof (intro conjI)
  let ?g = "replicate 4301 (CHR ''1'')"
  have dig: "?g \<noteq> [] \<and> (\<forall>c\<in>set ?g. is_digit c)" by (simp add: is_digit_def)
  have "match_question (''Question '' @ ?g @ [] @ '' Response'' @ []) = Some ?g"
    using dig by (intro match_question_form [where sub = "[]" and nl = "[]"]) auto
  then have m: "match_question (''Question '' @ ?g @ '' Response'') = Some ?g" by simp
  have "max_str_digits < length ?g" by (simp add: max_str_digits_def)
  then have "\<exists>h\<in>set [''Question '' @ ?g @ '' Response''].
      \<exists>g. match_question h = Some g \<and> max_str_digits < length g"
    using m by simp
  then show "parse_questions [''Question '' @ ?g @ '' Response''] = Inl ValueError"
    unfolding parse_questions_def by (rule parse_loop_ValueError)
  show "parse_questions [''Question 1 Response'' @ [CHR 0x0A] ]
     = Inr [(1, [''Question 1 Response'' @ [CHR 0x0A] ])]"
    by (simp add: parse_questions_def match_question_def eval_defs max_str_digits_def)
  show "\<not> pattern_matches (''Question 1 Response'' @ [CHR 0x0A]) ''1''"
    by (auto simp: pattern_matches_def)
qed

text \<open>
  C6, amended: for every list of headers none of which is a header of the form followed
  by a final newline, \<open>parse_questions\<close> returns a mapping when no header of the form has
  a question number of more than 4300 digits, and raises \<open>ValueError\<close> when one has. The
  mapping has one entry per question number, in which \<open>N\<close> has exactly the headers of the form
  \<open>Question <int>[.<int>] Response\<close> whose leading integer is \<open>N\<close>, in their order in the
  header list; a number with no such header is not a key, and a header that is not of
  the form is in no group.
\<close>

theorem C6_parse_questions:
  assumes "\<forall>h\<in>set headers. \<forall>h' g. h = h' @ [CHR 0x0A] \<longrightarrow> \<not> pattern_matches h' g"
  shows "((\<forall>h\<in>set headers. \<forall>g. pattern_matches h g \<longrightarrow> length g \<le> max_str_digits) \<longrightarrow>
            (\<exists>questions.
               parse_questions headers = Inr questions \<and>
               distinct (map fst questions) \<and>
               (\<forall>N. map_of questions N =
                  (if filter (\<lambda>h. \<exists>g. pattern_matches h g \<and> digits_value g = N) headers = []
                   then None
                   else Some (filter (\<lambda>h. \<exists>g. pattern_matches h g \<and> digits_value g = N)
                                headers))))) \<and>
         ((\<exists>h\<in>set headers. \<exists>g. pattern_matches h g \<and> max_str_digits < length g) \<longrightarrow>
            parse_questions headers = Inl ValueError)"
proof (intro conjI impI)
  have eq: "match_question h = Some g \<longleftrightarrow> pattern_matches h g" if "h \<in> set headers" for h g
    using match_question_sound [of h g] match_question_complete(1) [of h g] assms that by blast
  have f: "filter (\<lambda>h. \<exists>g. match_question h = Some g \<and> digits_value g = N) headers
         = filter (\<lambda>h. \<exists>g. pattern_matches h g \<and> digits_value g = N) headers" for N
    by (rule filter_cong) (auto simp: eq)
  show "\<exists>questions.
          parse_questions headers = Inr questions \<and>
          distinct (map fst questions) \<and>
          (\<forall>N. map_of questions N =
             (if filter (\<lambda>h. \<exists>g. pattern_matches h g \<and> digits_value g = N) headers = []
              then None
              else Some (filter (\<lambda>h. \<exists>g. pattern_matches h g \<and> digits_value g = N) headers)))"
    if cap: "\<forall>h\<in>set headers. \<forall>g. pattern_matches h g \<longrightarrow> length g \<le> max_str_digits"
  proof -
    have "\<forall>h\<in>set headers. \<forall>g. match_question h = Some g \<longrightarrow> length g \<le> max_str_digits"
      using cap eq by blast
    from parse_loop_spec [OF this, of "[]"] obtain qs' where
      r: "parse_loop headers [] = Inr qs'" and d: "distinct (map fst qs')"
      and m: "\<forall>N. map_of qs' N =
        (if filter (\<lambda>h. \<exists>g. match_question h = Some g \<and> digits_value g = N) headers = []
         then map_of [] N
         else Some ((case map_of [] N of None \<Rightarrow> [] | Some l \<Rightarrow> l)
                    @ filter (\<lambda>h. \<exists>g. match_question h = Some g \<and> digits_value g = N) headers))"
      by auto
    have "\<forall>N. map_of qs' N =
        (if filter (\<lambda>h. \<exists>g. pattern_matches h g \<and> digits_value g = N) headers = [] then None
         else Some (filter (\<lambda>h. \<exists>g. pattern_matches h g \<and> digits_value g = N) headers))"
      using m unfolding f by simp
    then show ?thesis using r d unfolding parse_questions_def by blast
  qed
  show "parse_questions headers = Inl ValueError"
    if "\<exists>h\<in>set headers. \<exists>g. pattern_matches h g \<and> max_str_digits < length g"
  proof -
    have "\<exists>h\<in>set headers. \<exists>g. match_question h = Some g \<and> max_str_digits < length g"
      using that eq by blast
    then show ?thesis unfolding parse_questions_def by (rule parse_loop_ValueError)
  qed
qed

theorem C6_parse_questions_witness:
  "last ''Student ID'' \<noteq> CHR 0x0A \<and> last ''Question 2 Response'' \<noteq> CHR 0x0A \<and>
   last ''Question 1.1 Response'' \<noteq> CHR 0x0A \<and> last ''Question 1 Answer'' \<noteq> CHR 0x0A \<and>
   last ''Question 1.2 Response'' \<noteq> CHR 0x0A \<and> last ''Question 02.10 Response'' \<noteq> CHR 0x0A \<and>
   length ''2'' \<le> max_str_digits \<and> length ''1'' \<le> max_str_digits \<and>
   length ''02'' \<le> max_str_digits \<and>
   parse_questions
     [''Student ID'', ''Question 2 Response'', ''Question 1.1 Response'', ''Question 1 Answer'',
      ''Question 1.2 Response'', ''Question 02.10 Response''] =
   Inr [(2, [''Question 2 Response'', ''Question 02.10 Response'']),
        (1, [''Question 1.1 Response'', ''Question 1.2 Response''])]"
  using C6_parse_questions
    [of "[''Student ID'', ''Question 2 Response'', ''Question 1.1 Response'', ''Question 1 Answer'',
      ''Question 1.2 Response'', ''Question 02.10 Response'']"]
  by (simp add: parse_questions_def match_question_def eval_defs)

section \<open>Properties of the loop over the metadata rows\<close>


lemma set_dict_set: "set (dict_set d k v) \<subseteq> insert (k, v) (set d)"
  by (induction d k v rule: dict_set.induct) auto

lemma dict_set_all: "P (k, v) \<Longrightarrow> \<forall>p\<in>set d. P p \<Longrightarrow> \<forall>p\<in>set (dict_set d k v). P p"
  using set_dict_set [of d k v] by blast

lemma compute_grades_Some:
  assumes "compute_grades row cols = Inr (Some v)"
  shows "length v = length cols \<and> (\<forall>x\<in>set v. 0 \<le> x \<and> x \<le> 4)"
proof (cases "\<forall>c\<in>set cols. row c \<noteq> None")
  case True
  have "\<And>cell. 0 \<le> cell_grade cell \<and> cell_grade cell \<le> 4"
    by (auto simp: cell_grade_def split: option.splits)
  then show ?thesis using assms compute_grades_eq [OF True]
    by (auto split: if_splits)
next
  case False
  then have "compute_loop row cols [] False = Inl KeyError"
    by (intro compute_loop_KeyError) auto
  then show ?thesis using assms by (simp add: compute_grades_def)
qed

lemma rows_loop_append:
  "rows_loop s2s cols (xs @ ys) g =
     (case rows_loop s2s cols xs g of Inl e \<Rightarrow> Inl e | Inr g' \<Rightarrow> rows_loop s2s cols ys g')"
  by (induction xs arbitrary: g) (auto split: option.splits sum.splits)

lemma rows_loop_other:
  "rows_loop s2s cols rows g = Inr g' \<Longrightarrow>
   \<forall>r\<in>set rows. row_target s2s r = Some sub \<longrightarrow> compute_grades r cols = Inr None \<Longrightarrow>
   map_of g' sub = map_of g sub"
proof (induction rows arbitrary: g)
  case Nil
  then show ?case by simp
next
  case (Cons r rows)
  then show ?case
    by (auto simp: row_target_def map_of_dict_set split: option.splits sum.splits)
qed

lemma rows_loop_keys:
  "rows_loop s2s cols rows g = Inr g' \<Longrightarrow>
   fst ` set g \<subseteq> fst ` set g' \<and> fst ` set g' \<subseteq> fst ` set g \<union> snd ` set s2s"
proof (induction rows arbitrary: g)
  case Nil
  then show ?case by simp
next
  case (Cons r rows)
  show ?case
  proof (cases "\<exists>sub v. row_target s2s r = Some sub \<and> compute_grades r cols = Inr (Some v)")
    case True
    then obtain sub v where t: "row_target s2s r = Some sub" and v: "compute_grades r cols = Inr (Some v)"
      by blast
    then have step: "rows_loop s2s cols (r # rows) g = rows_loop s2s cols rows (dict_set g sub v)"
      by (auto simp: row_target_def split: option.splits)
    have "sub \<in> snd ` set s2s" using t
      by (auto simp: row_target_def split: option.splits dest!: map_of_SomeD intro: rev_image_eqI)
    then show ?thesis using Cons.IH [of "dict_set g sub v"] Cons.prems step
      by (auto simp: keys_dict_set)
  next
    case False
    then have "rows_loop s2s cols (r # rows) g = Inr g' \<Longrightarrow> rows_loop s2s cols rows g = Inr g'"
      by (auto simp: row_target_def split: option.splits sum.splits)
    then show ?thesis using Cons by blast
  qed
qed

lemma rows_loop_distinct:
  "rows_loop s2s cols rows g = Inr g' \<Longrightarrow> distinct (map fst g) \<Longrightarrow> distinct (map fst g')"
  by (induction rows arbitrary: g)
     (auto simp: distinct_dict_set split: option.splits sum.splits)

lemma rows_loop_vectors:
  "rows_loop s2s cols rows g = Inr g' \<Longrightarrow>
   \<forall>(k, arr)\<in>set g. length arr = length cols \<and> (\<forall>x\<in>set arr. 0 \<le> x \<and> x \<le> 4) \<Longrightarrow>
   \<forall>(k, arr)\<in>set g'. length arr = length cols \<and> (\<forall>x\<in>set arr. 0 \<le> x \<and> x \<le> 4)"
proof (induction rows arbitrary: g)
  case Nil
  then show ?case by simp
next
  case (Cons r rows)
  show ?case
  proof (cases "\<exists>sub v. row_target s2s r = Some sub \<and> compute_grades r cols = Inr (Some v)")
    case True
    then obtain sub v where t: "row_target s2s r = Some sub" and v: "compute_grades r cols = Inr (Some v)"
      by blast
    then have step: "rows_loop s2s cols (r # rows) g = rows_loop s2s cols rows (dict_set g sub v)"
      by (auto simp: row_target_def split: option.splits)
    have "\<forall>(k, arr)\<in>set (dict_set g sub v). length arr = length cols \<and> (\<forall>x\<in>set arr. 0 \<le> x \<and> x \<le> 4)"
      using compute_grades_Some [OF v] Cons.prems(2) by (intro dict_set_all) auto
    then show ?thesis using Cons.IH [of "dict_set g sub v"] Cons.prems(1) step by simp
  next
    case False
    then have "rows_loop s2s cols (r # rows) g = Inr g' \<Longrightarrow> rows_loop s2s cols rows g = Inr g'"
      by (auto simp: row_target_def split: option.splits sum.splits)
    then show ?thesis using Cons by blast
  qed
qed

lemma foldl_default_keys:
  "fst ` set (foldl (\<lambda>g sub_id. dict_set g sub_id (replicate n 0)) g0 xs) = fst ` set g0 \<union> set xs"
  by (induction xs arbitrary: g0) (auto simp: keys_dict_set)

lemma foldl_default_distinct:
  "distinct (map fst g0) \<Longrightarrow>
   distinct (map fst (foldl (\<lambda>g sub_id. dict_set g sub_id (replicate n 0)) g0 xs))"
  by (induction xs arbitrary: g0) (auto simp: distinct_dict_set)

lemma foldl_default_values:
  "\<forall>(k, arr)\<in>set g0. arr = replicate n (0::int) \<Longrightarrow>
   \<forall>(k, arr)\<in>set (foldl (\<lambda>g sub_id. dict_set g sub_id (replicate n 0)) g0 xs). arr = replicate n 0"
proof (induction xs arbitrary: g0)
  case Nil
  then show ?case by simp
next
  case (Cons x xs)
  have "\<forall>(k, arr)\<in>set (dict_set g0 x (replicate n 0)). arr = replicate n (0::int)"
    using Cons.prems by (intro dict_set_all) auto
  then show ?case using Cons.IH by simp
qed

lemma default_grades_keys: "fst ` set (default_grades s2s n) = snd ` set s2s"
  by (simp add: default_grades_def foldl_default_keys)

lemma default_grades_distinct: "distinct (map fst (default_grades s2s n))"
  by (simp add: default_grades_def foldl_default_distinct)

lemma default_grades_values: "\<forall>(k, arr)\<in>set (default_grades s2s n). arr = replicate n 0"
  unfolding default_grades_def by (rule foldl_default_values) simp


section \<open>One metadata row and the grade mapping\<close>




text \<open>
  C1, as stated, fails: a row whose only response cell is the string \<open>0\<close> does not give
  the sentinel but the vector \<open>[0]\<close>, because \<open>has_any\<close> is set for every value from 0
  to 4; processed after a row that gave \<open>[3]\<close> for the same submission, it overwrites
  that entry with \<open>[0]\<close>.
\<close>

theorem C1_counterexample:
  "compute_grades (dict_row [''Student ID'', ''Question 1 Response''] [''s1'', ''0''])
     [''Question 1 Response''] = Inr (Some [0]) \<and>
   rows_loop [(''s1'', ''sub1'')] [''Question 1 Response'']
     [dict_row [''Student ID'', ''Question 1 Response''] [''s1'', ''3''],
      dict_row [''Student ID'', ''Question 1 Response''] [''s1'', ''0''] ]
     (default_grades [(''s1'', ''sub1'')] 1) = Inr [(''sub1'', [0])]"
  by (simp add: eval_defs)

text \<open>
  C1, amended: on a row that has the response columns, \<open>compute_grades\<close> returns the
  sentinel exactly when no column's cell reads as an integer from 0 to 4; a row for a
  known submission leaves the mapping as it is on the sentinel and overwrites the
  submission's entry with the vector otherwise; a row whose every cell is the string
  \<open>0\<close> gives the all-zero vector, not the sentinel.
\<close>

theorem C1_sentinel_iff:
  assumes "\<forall>c\<in>set cols. row c \<noteq> None"
  shows "(compute_grades row cols = Inr None \<longleftrightarrow>
            (\<forall>c\<in>set cols. \<forall>cell. row c = Some cell \<longrightarrow> \<not> cell_valid cell)) \<and>
         (row_target s2s row = Some sub \<longrightarrow>
            (\<exists>res. compute_grades row cols = Inr res \<and>
                   rows_loop s2s cols [row] g =
                     Inr (case res of None \<Rightarrow> g | Some v \<Rightarrow> dict_set g sub v))) \<and>
         (cols \<noteq> [] \<and> (\<forall>c\<in>set cols. row c = Some (Some ''0'')) \<longrightarrow>
            compute_grades row cols = Inr (Some (replicate (length cols) 0)))"
proof -
  let ?any = "\<exists>c\<in>set cols. cell_valid (the (row c))"
  let ?vec = "map (\<lambda>c. cell_grade (the (row c))) cols"
  have eq: "compute_grades row cols = Inr (if ?any then Some ?vec else None)"
    using assms by (rule compute_grades_eq)
  have any: "?any \<longleftrightarrow> \<not> (\<forall>c\<in>set cols. \<forall>cell. row c = Some cell \<longrightarrow> \<not> cell_valid cell)"
    using assms by force
  have a: "compute_grades row cols = Inr None \<longleftrightarrow>
      (\<forall>c\<in>set cols. \<forall>cell. row c = Some cell \<longrightarrow> \<not> cell_valid cell)"
    unfolding eq using any by simp
  have b: "\<exists>res. compute_grades row cols = Inr res \<and>
      rows_loop s2s cols [row] g = Inr (case res of None \<Rightarrow> g | Some v \<Rightarrow> dict_set g sub v)"
    if "row_target s2s row = Some sub"
    using that unfolding eq by (auto simp: row_target_def eq split: option.splits)
  have zero: "py_int (py_strip ''0'') = Some 0" by (simp add: eval_defs)
  have c: "compute_grades row cols = Inr (Some (replicate (length cols) 0))"
    if "cols \<noteq> []" "\<forall>c\<in>set cols. row c = Some (Some ''0'')"
  proof -
    have "?any" using that zero by (cases cols) (auto simp: cell_valid_def)
    moreover have "?vec = replicate (length cols) 0"
      using that(2) zero by (auto simp: cell_grade_def map_replicate_const [symmetric] intro!: map_cong)
    ultimately show ?thesis unfolding eq by simp
  qed
  show ?thesis using a b c by blast
qed


theorem C1_sentinel_iff_witness:
  "dict_row [''Student ID'', ''Q1'', ''Q2''] [''s1'', ''0'', ''x''] ''Q1'' \<noteq> None \<and>
   dict_row [''Student ID'', ''Q1'', ''Q2''] [''s1'', ''0'', ''x''] ''Q2'' \<noteq> None \<and>
   row_target [(''s1'', ''sub1'')] (dict_row [''Student ID'', ''Q1'', ''Q2''] [''s1'', ''0'', ''x''])
     = Some ''sub1'' \<and>
   compute_grades (dict_row [''Student ID'', ''Q1'', ''Q2''] [''s1'', ''0'', ''x'']) [''Q1'', ''Q2'']
     = Inr (Some [0, 0]) \<and>
   rows_loop [(''s1'', ''sub1'')] [''Q1'', ''Q2'']
     [dict_row [''Student ID'', ''Q1'', ''Q2''] [''s1'', ''0'', ''x''] ] [(''sub1'', [4, 4])]
     = Inr [(''sub1'', [0, 0])]"
  using C1_sentinel_iff [of "[''Q1'', ''Q2'']"
      "dict_row [''Student ID'', ''Q1'', ''Q2''] [''s1'', ''0'', ''x'']"
      "[(''s1'', ''sub1'')]" "''sub1''" "[(''sub1'', [4, 4])]"]
  by (simp add: eval_defs)

text \<open>
  C7: a metadata row in which every response cell is \<open>None\<close>, blank, unparseable or
  outside 0 to 4 leaves the grade mapping unchanged: the loop goes on with the same
  mapping, so the entry of its submission after the row is the entry before it.
\<close>

theorem C7_blank_row_keeps_entry:
  assumes "row ''Student ID'' = Some (Some c)"
    and "\<forall>col\<in>set cols. \<exists>cell. row col = Some cell \<and>
           (cell = None \<or>
            (\<exists>s. cell = Some s \<and>
                 (py_int (py_strip s) = None \<or>
                  (\<exists>v. py_int (py_strip s) = Some v \<and> (v < 0 \<or> 4 < v)))))"
  shows "rows_loop s2s cols [row] g = Inr g \<and>
         rows_loop s2s cols (row # rows) g = rows_loop s2s cols rows g"
proof -
  have keys: "\<forall>c\<in>set cols. row c \<noteq> None" using assms(2) by auto
  have "\<forall>c\<in>set cols. \<not> cell_valid (the (row c))"
    using assms(2) by (fastforce simp: cell_valid_def)
  then have "compute_grades row cols = Inr None"
    using compute_grades_eq [OF keys] by simp
  then show ?thesis using assms(1) by (simp split: option.splits)
qed

theorem C7_blank_row_keeps_entry_witness:
  "dict_row [''Student ID'', ''Q1'', ''Q2'', ''Q3''] [''s1'', ''  '', ''5''] ''Student ID''
     = Some (Some ''s1'') \<and>
   dict_row [''Student ID'', ''Q1'', ''Q2'', ''Q3''] [''s1'', ''  '', ''5''] ''Q1'' = Some (Some ''  '') \<and>
   py_int (py_strip ''  '') = None \<and>
   dict_row [''Student ID'', ''Q1'', ''Q2'', ''Q3''] [''s1'', ''  '', ''5''] ''Q2'' = Some (Some ''5'') \<and>
   py_int (py_strip ''5'') = Some 5 \<and>
   dict_row [''Student ID'', ''Q1'', ''Q2'', ''Q3''] [''s1'', ''  '', ''5''] ''Q3'' = Some None \<and>
   rows_loop [(''s1'', ''sub1'')] [''Q1'', ''Q2'', ''Q3'']
     [dict_row [''Student ID'', ''Q1'', ''Q2'', ''Q3''] [''s1'', ''  '', ''5''] ]
     [(''sub1'', [0, 0, 0])] = Inr [(''sub1'', [0, 0, 0])]"
  using C7_blank_row_keeps_entry [of
      "dict_row [''Student ID'', ''Q1'', ''Q2'', ''Q3''] [''s1'', ''  '', ''5'']" "''s1''"
      "[''Q1'', ''Q2'', ''Q3'']" "[(''s1'', ''sub1'')]" "[(''sub1'', [0, 0, 0])]" "[]"]
  by (simp add: eval_defs)

text \<open>
  C4: after all metadata rows are processed for a question, the mapping has the
  roster's submissions as keys and every vector in it is as long as the list of response
  columns; so are the default vectors and every vector that \<open>compute_grades\<close> returns.
\<close>

theorem C4_vector_length:
  assumes "rows_loop s2s cols rows (default_grades s2s (length cols)) = Inr g"
  shows "fst ` set g = snd ` set s2s \<and>
         (\<forall>(k, arr)\<in>set g. length arr = length cols) \<and>
         (\<forall>(k, arr)\<in>set (default_grades s2s (length cols)). arr = replicate (length cols) 0) \<and>
         (\<forall>row v. compute_grades row cols = Inr (Some v) \<longrightarrow> length v = length cols)"
proof -
  have "fst ` set (default_grades s2s (length cols)) \<subseteq> fst ` set g \<and>
        fst ` set g \<subseteq> fst ` set (default_grades s2s (length cols)) \<union> snd ` set s2s"
    using assms by (rule rows_loop_keys)
  then have keys: "fst ` set g = snd ` set s2s"
    unfolding default_grades_keys by blast
  have dv: "\<forall>(k, arr)\<in>set (default_grades s2s (length cols)). arr = replicate (length cols) 0"
    by (rule default_grades_values)
  then have "\<forall>(k, arr)\<in>set (default_grades s2s (length cols)).
          length arr = length cols \<and> (\<forall>x\<in>set arr. 0 \<le> x \<and> x \<le> 4)"
    by fastforce
  then have "\<forall>(k, arr)\<in>set g. length arr = length cols \<and> (\<forall>x\<in>set arr. 0 \<le> x \<and> x \<le> 4)"
    by (rule rows_loop_vectors [OF assms])
  then have len: "\<forall>(k, arr)\<in>set g. length arr = length cols" by fastforce
  have cg: "\<forall>row v. compute_grades row cols = Inr (Some v) \<longrightarrow> length v = length cols"
    by (simp add: compute_grades_Some)
  show ?thesis
  proof (intro conjI)
    show "fst ` set g = snd ` set s2s" by (rule keys)
    show "\<forall>(k, arr)\<in>set g. length arr = length cols" by (rule len)
    show "\<forall>(k, arr)\<in>set (default_grades s2s (length cols)). arr = replicate (length cols) 0"
      by (rule dv)
    show "\<forall>row v. compute_grades row cols = Inr (Some v) \<longrightarrow> length v = length cols"
      by (rule cg)
  qed
qed


theorem C4_vector_length_witness:
  "rows_loop [(''s1'', ''sub1''), (''s2'', ''sub2'')] [''Q1'', ''Q2'']
     [dict_row [''Student ID'', ''Q1'', ''Q2''] [''s2'', ''3''] ]
     (default_grades [(''s1'', ''sub1''), (''s2'', ''sub2'')] (length [''Q1'', ''Q2'']))
     = Inr [(''sub1'', [0, 0]), (''sub2'', [3, 0])] \<and>
   length [0, 0 :: int] = length [''Q1'', ''Q2''] \<and> length [3, 0 :: int] = length [''Q1'', ''Q2'']"
  using C4_vector_length [of "[(''s1'', ''sub1''), (''s2'', ''sub2'')]" "[''Q1'', ''Q2'']"
      "[dict_row [''Student ID'', ''Q1'', ''Q2''] [''s2'', ''3''] ]"
      "[(''sub1'', [0, 0]), (''sub2'', [3, 0])]"]
  by (simp add: eval_defs)


section \<open>Several rows for one submission\<close>


lemma rows_loop_last_wins:
  assumes run: "rows_loop s2s cols (pre @ r # post) g0 = Inr g"
    and t: "row_target s2s r = Some sub"
    and v: "compute_grades r cols = Inr (Some v)"
    and later: "\<forall>r'\<in>set post. row_target s2s r' = Some sub \<longrightarrow> compute_grades r' cols = Inr None"
  shows "map_of g sub = Some v"
proof -
  from run obtain g1 where g1: "rows_loop s2s cols pre g0 = Inr g1"
    and rest: "rows_loop s2s cols (r # post) g1 = Inr g"
    by (auto simp: rows_loop_append split: sum.splits)
  have "rows_loop s2s cols (r # post) g1 = rows_loop s2s cols post (dict_set g1 sub v)"
    using t v by (auto simp: row_target_def split: option.splits)
  then have "rows_loop s2s cols post (dict_set g1 sub v) = Inr g" using rest by simp
  then have "map_of g sub = map_of (dict_set g1 sub v) sub"
    using later by (rule rows_loop_other)
  then show ?thesis by (simp add: map_of_dict_set)
qed

lemma single_entry:
  "distinct (map fst d) \<Longrightarrow> map_of d k = Some v \<Longrightarrow> filter (\<lambda>(k', x). k' = k) d = [(k, v)]"
proof (induction d)
  case Nil
  then show ?case by simp
next
  case (Cons p d)
  obtain k' x where p: "p = (k', x)" by (cases p)
  show ?case
  proof (cases "k' = k")
    case True
    then have "k \<notin> fst ` set d" using Cons.prems(1) p by simp
    then have "filter (\<lambda>(k', x). k' = k) d = []"
      by (auto simp: filter_empty_conv intro: rev_image_eqI)
    then show ?thesis using True p Cons.prems(2) by simp
  next
    case False
    then show ?thesis using Cons p by simp
  qed
qed

lemma scores_loop_step:
  "scores_loop (row # rows) m =
     (if row ''SID'' = None \<or> row ''Submission ID'' = None then Inl KeyError
      else case score_entry row of
             None \<Rightarrow> scores_loop rows m
           | Some (sid, b) \<Rightarrow> scores_loop rows (dict_set m sid b))"
  by (auto simp: score_entry_def Let_def split: option.splits)

lemma scores_loop_append:
  "scores_loop (xs @ ys) m =
     (case scores_loop xs m of Inl e \<Rightarrow> Inl e | Inr m' \<Rightarrow> scores_loop ys m')"
proof (induction xs arbitrary: m)
  case Nil
  then show ?case by simp
next
  case (Cons x xs)
  show ?case unfolding append_Cons scores_loop_step
    by (simp add: Cons.IH split: option.splits prod.splits)
qed

lemma scores_loop_other:
  "scores_loop rows m = Inr m' \<Longrightarrow> \<forall>r\<in>set rows. \<forall>b. score_entry r \<noteq> Some (s, b) \<Longrightarrow>
   map_of m' s = map_of m s"
proof (induction rows arbitrary: m)
  case Nil
  then show ?case by simp
next
  case (Cons r rows)
  show ?case
  proof (cases "score_entry r")
    case None
    then have "scores_loop rows m = Inr m'"
      using Cons.prems(1) unfolding scores_loop_step by (simp split: if_splits)
    then show ?thesis using Cons.IH Cons.prems(2) by simp
  next
    case (Some e)
    obtain sid b where e: "e = (sid, b)" by (cases e)
    then have ne: "sid \<noteq> s" using Some Cons.prems(2) by auto
    have "scores_loop rows (dict_set m sid b) = Inr m'"
      using Cons.prems(1) Some e unfolding scores_loop_step by (simp split: if_splits)
    then have "map_of m' s = map_of (dict_set m sid b) s"
      using Cons.IH Cons.prems(2) by simp
    then show ?thesis using ne by (simp add: map_of_dict_set)
  qed
qed

lemma scores_loop_distinct:
  "scores_loop rows m = Inr m' \<Longrightarrow> distinct (map fst m) \<Longrightarrow> distinct (map fst m')"
proof (induction rows arbitrary: m)
  case Nil
  then show ?case by simp
next
  case (Cons r rows)
  show ?case
  proof (cases "score_entry r")
    case None
    then have "scores_loop rows m = Inr m'"
      using Cons.prems(1) unfolding scores_loop_step by (simp split: if_splits)
    then show ?thesis using Cons.IH Cons.prems(2) by simp
  next
    case (Some e)
    obtain sid b where e: "e = (sid, b)" by (cases e)
    have "scores_loop rows (dict_set m sid b) = Inr m'"
      using Cons.prems(1) Some e unfolding scores_loop_step by (simp split: if_splits)
    then show ?thesis using Cons.IH Cons.prems(2) by (simp add: distinct_dict_set)
  qed
qed

lemma scores_loop_last_wins:
  assumes run: "scores_loop (pre @ r # post) m0 = Inr m"
    and e: "score_entry r = Some (sid, b)"
    and later: "\<forall>r'\<in>set post. \<forall>b'. score_entry r' \<noteq> Some (sid, b')"
  shows "map_of m sid = Some b"
proof -
  from run obtain m1 where "scores_loop pre m0 = Inr m1"
    and rest: "scores_loop (r # post) m1 = Inr m"
    by (auto simp: scores_loop_append split: sum.splits)
  have "scores_loop post (dict_set m1 sid b) = Inr m"
    using rest e unfolding scores_loop_step by (simp split: if_splits)
  then have "map_of m sid = map_of (dict_set m1 sid b) sid"
    using later by (rule scores_loop_other)
  then show ?thesis by (simp add: map_of_dict_set)
qed


text \<open>
  C5, as stated, fails: with two rows of the same student, the first giving \<open>[3]\<close> and
  the last one blank, the final vector is \<open>[3]\<close>, the one of the first row; what the
  last row computes is the sentinel, which overwrites nothing.
\<close>

theorem C5_counterexample:
  "rows_loop [(''s1'', ''sub1'')] [''Question 1 Response'']
     [dict_row [''Student ID'', ''Question 1 Response''] [''s1'', ''3''],
      dict_row [''Student ID'', ''Question 1 Response''] [''s1'', [] ] ]
     (default_grades [(''s1'', ''sub1'')] 1) = Inr [(''sub1'', [3])] \<and>
   compute_grades (dict_row [''Student ID'', ''Question 1 Response''] [''s1'', ''3''])
     [''Question 1 Response''] = Inr (Some [3]) \<and>
   compute_grades (dict_row [''Student ID'', ''Question 1 Response''] [''s1'', [] ])
     [''Question 1 Response''] = Inr None"
  by (simp add: eval_defs)

text \<open>
  C5, amended: when several metadata rows carry the same student ID, the final vector of
  the student's submission is the one computed from the last such row that does not give
  the sentinel, provided no later row of another student ID mapped to the same
  submission overwrites it, that is, every such later row gives the sentinel.
\<close>

theorem C5_last_row_wins:
  assumes "rows_loop s2s cols (pre @ r # post) g0 = Inr g"
    and "r ''Student ID'' = Some (Some c)"
    and "map_of s2s (py_strip c) = Some sub"
    and "compute_grades r cols = Inr (Some v)"
    and "\<forall>r'\<in>set post. \<forall>c'. r' ''Student ID'' = Some (Some c') \<and> py_strip c' = py_strip c \<longrightarrow>
           compute_grades r' cols = Inr None"
    and "\<forall>r'\<in>set post. \<forall>c'. r' ''Student ID'' = Some (Some c') \<and> py_strip c' \<noteq> py_strip c \<and>
           map_of s2s (py_strip c') = Some sub \<longrightarrow>
           compute_grades r' cols = Inr None"
  shows "map_of g sub = Some v"
proof -
  have t: "row_target s2s r = Some sub" using assms(2,3) by (simp add: row_target_def)
  have later: "\<forall>r'\<in>set post. row_target s2s r' = Some sub \<longrightarrow> compute_grades r' cols = Inr None"
  proof (intro ballI impI)
    fix r' assume r': "r' \<in> set post" and t': "row_target s2s r' = Some sub"
    then obtain c' where c': "r' ''Student ID'' = Some (Some c')"
      and m: "map_of s2s (py_strip c') = Some sub"
      by (auto simp: row_target_def split: option.splits)
    show "compute_grades r' cols = Inr None"
    proof (cases "py_strip c' = py_strip c")
      case True
      then show ?thesis using assms(5) r' c' by blast
    next
      case False
      then show ?thesis using assms(6) r' c' m by blast
    qed
  qed
  show ?thesis using assms(1) t assms(4) later by (rule rows_loop_last_wins)
qed

theorem C5_last_row_wins_witness:
  "rows_loop [(''s1'', ''sub1''), (''s2'', ''sub1''), (''s3'', ''sub3'')] [''Q1'']
     ([dict_row [''Student ID'', ''Q1''] [''s1'', ''3''] ]
      @ dict_row [''Student ID'', ''Q1''] ['' s1'', ''2'']
      # [dict_row [''Student ID'', ''Q1''] [''s2'', [] ],
         dict_row [''Student ID'', ''Q1''] [''s3'', ''4''],
         dict_row [''Student ID'', ''Q1''] [''s1'', ''x''] ])
     (default_grades [(''s1'', ''sub1''), (''s2'', ''sub1''), (''s3'', ''sub3'')] 1)
     = Inr [(''sub1'', [2]), (''sub3'', [4])] \<and>
   dict_row [''Student ID'', ''Q1''] ['' s1'', ''2''] ''Student ID'' = Some (Some '' s1'') \<and>
   map_of [(''s1'', ''sub1''), (''s2'', ''sub1''), (''s3'', ''sub3'')] (py_strip '' s1'')
     = Some ''sub1'' \<and>
   compute_grades (dict_row [''Student ID'', ''Q1''] ['' s1'', ''2'']) [''Q1''] = Inr (Some [2]) \<and>
   compute_grades (dict_row [''Student ID'', ''Q1''] [''s1'', ''x'']) [''Q1''] = Inr None \<and>
   map_of [(''s1'', ''sub1''), (''s2'', ''sub1''), (''s3'', ''sub3'')] (py_strip ''s2'')
     = Some ''sub1'' \<and>
   compute_grades (dict_row [''Student ID'', ''Q1''] [''s2'', [] ]) [''Q1''] = Inr None \<and>
   map_of [(''s1'', ''sub1''), (''s2'', ''sub1''), (''s3'', ''sub3'')] (py_strip ''s3'')
     \<noteq> Some ''sub1'' \<and>
   map_of [(''sub1'', [2]), (''sub3'', [4 :: int])] ''sub1'' = Some [2]"
  using C5_last_row_wins [of "[(''s1'', ''sub1''), (''s2'', ''sub1''), (''s3'', ''sub3'')]" "[''Q1'']"
      "[dict_row [''Student ID'', ''Q1''] [''s1'', ''3''] ]"
      "dict_row [''Student ID'', ''Q1''] ['' s1'', ''2'']"
      "[dict_row [''Student ID'', ''Q1''] [''s2'', [] ],
        dict_row [''Student ID'', ''Q1''] [''s3'', ''4''],
        dict_row [''Student ID'', ''Q1''] [''s1'', ''x''] ]"
      "default_grades [(''s1'', ''sub1''), (''s2'', ''sub1''), (''s3'', ''sub3'')] 1"
      "[(''sub1'', [2]), (''sub3'', [4])]" "'' s1''" "''sub1''" "[2]"]
  by (simp add: eval_defs)

lemma default_grades_lookup:
  assumes "sub \<in> snd ` set s2s"
  shows "map_of (default_grades s2s n) sub = Some (replicate n 0)"
proof -
  have "sub \<in> fst ` set (default_grades s2s n)" using assms by (simp add: default_grades_keys)
  then obtain v where v: "map_of (default_grades s2s n) sub = Some v"
    by (metis map_of_eq_None_iff not_Some_eq)
  then have "(sub, v) \<in> set (default_grades s2s n)" by (rule map_of_SomeD)
  then have "v = replicate n 0" using default_grades_values [of s2s n] by blast
  then show ?thesis using v by simp
qed

text \<open>
  C10: when two distinct student IDs of the roster have the same submission ID, the
  final mapping has exactly one entry for that submission: the default vector of zeros
  when no row for the submission gives a vector, and otherwise the vector of the last
  row, of either student, that does not give the sentinel. In the scores loop a student
  ID has exactly one entry, with the submission ID of the last row that stores one for
  it.
\<close>

theorem C10_shared_submission:
  assumes "s1 \<noteq> s2" and "map_of s2s s1 = Some sub" and "map_of s2s s2 = Some sub"
    and "rows_loop s2s cols rows (default_grades s2s (length cols)) = Inr g"
  shows "(\<exists>v. filter (\<lambda>(k, arr). k = sub) g = [(sub, v)]) \<and>
         ((\<forall>r\<in>set rows. row_target s2s r = Some sub \<longrightarrow> compute_grades r cols = Inr None) \<longrightarrow>
            filter (\<lambda>(k, arr). k = sub) g = [(sub, replicate (length cols) 0)]) \<and>
         (\<forall>pre r post c v.
            rows = pre @ r # post \<and> r ''Student ID'' = Some (Some c) \<and>
            (py_strip c = s1 \<or> py_strip c = s2) \<and>
            compute_grades r cols = Inr (Some v) \<and>
            (\<forall>r'\<in>set post. row_target s2s r' = Some sub \<longrightarrow> compute_grades r' cols = Inr None) \<longrightarrow>
            filter (\<lambda>(k, arr). k = sub) g = [(sub, v)]) \<and>
         (\<forall>rs r0 rs' m sid b.
            scores_loop (rs @ r0 # rs') [] = Inr m \<and> score_entry r0 = Some (sid, b) \<and>
            (\<forall>r'\<in>set rs'. \<forall>b'. score_entry r' \<noteq> Some (sid, b')) \<longrightarrow>
            filter (\<lambda>(k, x). k = sid) m = [(sid, b)])"
proof -
  have d: "distinct (map fst g)"
    using assms(4) default_grades_distinct by (rule rows_loop_distinct)
  have mem: "sub \<in> snd ` set s2s"
    using assms(2) by (auto dest!: map_of_SomeD intro: rev_image_eqI)
  have dflt: "map_of (default_grades s2s (length cols)) sub = Some (replicate (length cols) 0)"
    using mem by (rule default_grades_lookup)
  have "fst ` set (default_grades s2s (length cols)) \<subseteq> fst ` set g"
    using rows_loop_keys [OF assms(4)] by blast
  then have "sub \<in> fst ` set g" using mem by (auto simp: default_grades_keys)
  then obtain v0 where "map_of g sub = Some v0"
    by (metis map_of_eq_None_iff not_Some_eq)
  then have "filter (\<lambda>(k, arr). k = sub) g = [(sub, v0)]" using d by (intro single_entry)
  then have a: "\<exists>v. filter (\<lambda>(k, arr). k = sub) g = [(sub, v)]" by blast
  have b: "filter (\<lambda>(k, arr). k = sub) g = [(sub, replicate (length cols) 0)]"
    if "\<forall>r\<in>set rows. row_target s2s r = Some sub \<longrightarrow> compute_grades r cols = Inr None"
  proof -
    have "map_of g sub = map_of (default_grades s2s (length cols)) sub"
      using assms(4) that by (rule rows_loop_other)
    then have "map_of g sub = Some (replicate (length cols) 0)" using dflt by simp
    then show ?thesis using d by (intro single_entry)
  qed
  have c: "filter (\<lambda>(k, arr). k = sub) g = [(sub, v)]"
    if rows: "rows = pre @ r # post" and sid: "r ''Student ID'' = Some (Some c)"
      and who: "py_strip c = s1 \<or> py_strip c = s2"
      and v: "compute_grades r cols = Inr (Some v)"
      and later: "\<forall>r'\<in>set post. row_target s2s r' = Some sub \<longrightarrow> compute_grades r' cols = Inr None"
    for pre r post c v
  proof -
    have t: "row_target s2s r = Some sub" using assms(2,3) sid who by (auto simp: row_target_def)
    have run: "rows_loop s2s cols (pre @ r # post) (default_grades s2s (length cols)) = Inr g"
      using assms(4) rows by simp
    have "map_of g sub = Some v" using run t v later by (rule rows_loop_last_wins)
    then show ?thesis using d by (intro single_entry)
  qed
  have e: "filter (\<lambda>(k, x). k = sid) m = [(sid, b)]"
    if "scores_loop (rs @ r0 # rs') [] = Inr m" "score_entry r0 = Some (sid, b)"
      "\<forall>r'\<in>set rs'. \<forall>b'. score_entry r' \<noteq> Some (sid, b')"
    for rs r0 rs' m sid b
  proof -
    have "map_of m sid = Some b" using that by (rule scores_loop_last_wins)
    moreover have "distinct (map fst m)" using that(1) by (rule scores_loop_distinct) simp
    ultimately show ?thesis by (intro single_entry)
  qed
  show ?thesis
  proof (intro conjI allI impI)
    show "\<exists>v. filter (\<lambda>(k, arr). k = sub) g = [(sub, v)]" by (rule a)
    show "filter (\<lambda>(k, arr). k = sub) g = [(sub, replicate (length cols) 0)]"
      if "\<forall>r\<in>set rows. row_target s2s r = Some sub \<longrightarrow> compute_grades r cols = Inr None"
      using that by (rule b)
    show "filter (\<lambda>(k, arr). k = sub) g = [(sub, v)]"
      if "rows = pre @ r # post \<and> r ''Student ID'' = Some (Some c) \<and>
          (py_strip c = s1 \<or> py_strip c = s2) \<and>
          compute_grades r cols = Inr (Some v) \<and>
          (\<forall>r'\<in>set post. row_target s2s r' = Some sub \<longrightarrow> compute_grades r' cols = Inr None)"
      for pre r post c v
      using that c by blast
    show "filter (\<lambda>(k, x). k = sid) m = [(sid, b)]"
      if "scores_loop (rs @ r0 # rs') [] = Inr m \<and> score_entry r0 = Some (sid, b) \<and>
          (\<forall>r'\<in>set rs'. \<forall>b'. score_entry r' \<noteq> Some (sid, b'))"
      for rs r0 rs' m sid b
      using that e by blast
  qed
qed

theorem C10_shared_submission_witness:
  "''s1'' \<noteq> ''s2'' \<and>
   scores_loop
     ([dict_row [''SID'', ''Submission ID''] [''s1'', ''old''] ]
      @ dict_row [''SID'', ''Submission ID''] [''s1'', ''sub1'']
      # [dict_row [''SID'', ''Submission ID''] [''s2'', ''sub1''],
         dict_row [''SID'', ''Submission ID''] [''s1'', [] ] ]) []
     = Inr [(''s1'', ''sub1''), (''s2'', ''sub1'')] \<and>
   score_entry (dict_row [''SID'', ''Submission ID''] [''s1'', ''sub1'']) = Some (''s1'', ''sub1'') \<and>
   score_entry (dict_row [''SID'', ''Submission ID''] [''s2'', ''sub1'']) = Some (''s2'', ''sub1'') \<and>
   score_entry (dict_row [''SID'', ''Submission ID''] [''s1'', [] ]) = None \<and>
   map_of [(''s1'', ''sub1''), (''s2'', ''sub1'')] ''s1'' = Some ''sub1'' \<and>
   map_of [(''s1'', ''sub1''), (''s2'', ''sub1'')] ''s2'' = Some ''sub1'' \<and>
   rows_loop [(''s1'', ''sub1''), (''s2'', ''sub1'')] [''Q1'']
     ([dict_row [''Student ID'', ''Q1''] [''s1'', ''3''] ]
      @ dict_row [''Student ID'', ''Q1''] [''s2'', ''2'']
      # [dict_row [''Student ID'', ''Q1''] [''s1'', [] ] ])
     (default_grades [(''s1'', ''sub1''), (''s2'', ''sub1'')] (length [''Q1'']))
     = Inr [(''sub1'', [2])] \<and>
   compute_grades (dict_row [''Student ID'', ''Q1''] [''s2'', ''2'']) [''Q1''] = Inr (Some [2]) \<and>
   compute_grades (dict_row [''Student ID'', ''Q1''] [''s1'', [] ]) [''Q1''] = Inr None \<and>
   rows_loop [(''s1'', ''sub1''), (''s2'', ''sub1'')] [''Q1'']
     [dict_row [''Student ID'', ''Q1''] [''s1'', [] ], dict_row [''Student ID'', ''Q1''] [''s2'', ''9''] ]
     (default_grades [(''s1'', ''sub1''), (''s2'', ''sub1'')] (length [''Q1'']))
     = Inr [(''sub1'', [0])] \<and>
   compute_grades (dict_row [''Student ID'', ''Q1''] [''s2'', ''9'']) [''Q1''] = Inr None"
  using C10_shared_submission [of "''s1''" "''s2''" "[(''s1'', ''sub1''), (''s2'', ''sub1'')]" "''sub1''"
      "[''Q1'']"
      "[dict_row [''Student ID'', ''Q1''] [''s1'', ''3''] ]
       @ dict_row [''Student ID'', ''Q1''] [''s2'', ''2'']
       # [dict_row [''Student ID'', ''Q1''] [''s1'', [] ] ]"
      "[(''sub1'', [2])]"]
    C10_shared_submission [of "''s1''" "''s2''" "[(''s1'', ''sub1''), (''s2'', ''sub1'')]" "''sub1''"
      "[''Q1'']"
      "[dict_row [''Student ID'', ''Q1''] [''s1'', [] ], dict_row [''Student ID'', ''Q1''] [''s2'', ''9''] ]"
      "[(''sub1'', [0])]"]
  by (simp add: eval_defs Let_def)

section \<open>The whole run\<close>


lemma any_positive_iff:
  assumes "\<forall>(k, arr)\<in>set g. \<forall>x\<in>set arr. 0 \<le> x"
  shows "any_positive g \<longleftrightarrow> (\<exists>(k, arr)\<in>set g. \<exists>x\<in>set arr. x \<noteq> 0)"
proof -
  have "any_positive g \<longleftrightarrow> (\<exists>p\<in>set g. \<exists>x\<in>set (snd p). 0 < x)"
    unfolding any_positive_def list_ex_iff by simp
  also have "\<dots> \<longleftrightarrow> (\<exists>p\<in>set g. \<exists>x\<in>set (snd p). x \<noteq> 0)"
  proof (intro bex_cong refl)
    fix p x assume "p \<in> set g" "x \<in> set (snd p)"
    then have "0 \<le> x" using assms by (cases p) auto
    then show "0 < x \<longleftrightarrow> x \<noteq> 0" by auto
  qed
  also have "\<dots> \<longleftrightarrow> (\<exists>(k, arr)\<in>set g. \<exists>x\<in>set arr. x \<noteq> 0)"
    by (simp add: case_prod_beta)
  finally show ?thesis .
qed

lemma question_grades_nonneg:
  assumes "rows_loop s2s cols rows (default_grades s2s (length cols)) = Inr g"
  shows "\<forall>(k, arr)\<in>set g. \<forall>x\<in>set arr. 0 \<le> x"
proof -
  have "\<forall>(k, arr)\<in>set (default_grades s2s (length cols)).
          length arr = length cols \<and> (\<forall>x\<in>set arr. 0 \<le> x \<and> x \<le> 4)"
    using default_grades_values [of s2s "length cols"] by fastforce
  then have "\<forall>(k, arr)\<in>set g. length arr = length cols \<and> (\<forall>x\<in>set arr. 0 \<le> x \<and> x \<le> 4)"
    by (rule rows_loop_vectors [OF assms])
  then show ?thesis by fastforce
qed

lemma questions_loop_written:
  "questions_loop wok folder s2s rows questions qs = (evs, None) \<Longrightarrow>
   Write_file f q g n \<in> set evs \<longleftrightarrow>
     f = folder \<and> q \<in> set qs \<and>
     (\<exists>cols. map_of questions q = Some cols \<and> n = length cols \<and>
             rows_loop s2s cols rows (default_grades s2s n) = Inr g \<and> any_positive g)"
proof (induction qs arbitrary: evs)
  case Nil
  then show ?case by simp
next
  case (Cons q0 qs)
  from Cons.prems obtain cols where cols: "map_of questions q0 = Some cols"
    by (auto split: option.splits)
  from Cons.prems cols obtain g0 where
    g0: "rows_loop s2s cols rows (default_grades s2s (length cols)) = Inr g0"
    by (auto simp: Let_def split: sum.splits)
  obtain evs' r' where rest: "questions_loop wok folder s2s rows questions qs = (evs', r')"
    by (cases "questions_loop wok folder s2s rows questions qs")
  show ?case
  proof (cases "any_positive g0")
    case False
    then have e: "evs = Print_skipped q0 # evs'" and r: "r' = None"
      using Cons.prems cols g0 rest by (auto simp: Let_def)
    have ih: "Write_file f q g n \<in> set evs' \<longleftrightarrow>
       f = folder \<and> q \<in> set qs \<and>
       (\<exists>cols. map_of questions q = Some cols \<and> n = length cols \<and>
               rows_loop s2s cols rows (default_grades s2s n) = Inr g \<and> any_positive g)"
      using Cons.IH rest r by simp
    show ?thesis unfolding e using ih False cols g0 by auto
  next
    case True
    then have e: "evs = Write_file folder q0 g0 (length cols)
          # Print_written q0 (length g0) (length cols) # evs'" and r: "r' = None"
      using Cons.prems cols g0 rest by (auto simp: Let_def split: if_splits)
    have ih: "Write_file f q g n \<in> set evs' \<longleftrightarrow>
       f = folder \<and> q \<in> set qs \<and>
       (\<exists>cols. map_of questions q = Some cols \<and> n = length cols \<and>
               rows_loop s2s cols rows (default_grades s2s n) = Inr g \<and> any_positive g)"
      using Cons.IH rest r by simp
    show ?thesis unfolding e using ih True cols g0 by auto
  qed
qed

lemma run_None:
  assumes "run w a b = (evs, None)"
  shows "\<exists>line scores s2s metadata headers questions evs'.
           stdin_line w = Some line \<and> makedirs_ok w (py_strip line) \<and>
           open_csv w a = Some scores \<and> scores_loop (reader_rows scores) [] = Inr s2s \<and>
           open_csv w b = Some metadata \<and> fieldnames metadata = Some headers \<and>
           parse_questions headers = Inr questions \<and>
           questions_loop (write_ok w (py_strip line)) (py_strip line) s2s (reader_rows metadata)
             questions (sort (map fst questions)) = (evs', None) \<and>
           evs = [Prompt, Makedirs (py_strip line), Print_found (sort (map fst questions))] @ evs'"
  using assms unfolding run_def Let_def
  by (auto split: option.splits sum.splits prod.splits if_splits)

lemma main_zero:
  "main w = (0, evs) \<Longrightarrow> length (argv w) = 3 \<and> run w (argv w ! 1) (argv w ! 2) = (evs, None)"
  unfolding main_def by (auto split: if_splits list.splits prod.splits option.splits)


text \<open>
  C3: in a run that ends with status 0, for every question found in the headers the
  file of that question is written exactly when the question's final mapping, computed
  from the default vectors and all metadata rows, has a vector with a nonzero entry; a
  question whose vectors are all zero gets no file.
\<close>

theorem C3_file_iff_nonzero:
  assumes "main w = (0, evs)"
  shows "\<exists>line scores s2s metadata headers questions.
           stdin_line w = Some line \<and>
           open_csv w (argv w ! 1) = Some scores \<and>
           scores_loop (reader_rows scores) [] = Inr s2s \<and>
           open_csv w (argv w ! 2) = Some metadata \<and>
           fieldnames metadata = Some headers \<and>
           parse_questions headers = Inr questions \<and>
           (\<forall>q\<in>fst ` set questions.
              (\<exists>g n. Write_file (py_strip line) q g n \<in> set evs) \<longleftrightarrow>
              (\<exists>cols g. map_of questions q = Some cols \<and>
                        rows_loop s2s cols (reader_rows metadata)
                          (default_grades s2s (length cols)) = Inr g \<and>
                        (\<exists>(k, arr)\<in>set g. \<exists>x\<in>set arr. x \<noteq> 0)))"
proof -
  from assms have "run w (argv w ! 1) (argv w ! 2) = (evs, None)"
    by (rule main_zero [THEN conjunct2])
  then obtain line scores s2s metadata headers questions evs' where
    a: "stdin_line w = Some line" "open_csv w (argv w ! 1) = Some scores"
      "scores_loop (reader_rows scores) [] = Inr s2s"
      "open_csv w (argv w ! 2) = Some metadata" "fieldnames metadata = Some headers"
      "parse_questions headers = Inr questions"
    and loop: "questions_loop (write_ok w (py_strip line)) (py_strip line) s2s (reader_rows metadata)
             questions (sort (map fst questions)) = (evs', None)"
    and evs: "evs = [Prompt, Makedirs (py_strip line), Print_found (sort (map fst questions))] @ evs'"
    using run_None [of w "argv w ! 1" "argv w ! 2" evs] by auto
  have w: "Write_file (py_strip line) q g n \<in> set evs \<longleftrightarrow>
      q \<in> fst ` set questions \<and>
      (\<exists>cols. map_of questions q = Some cols \<and> n = length cols \<and>
         rows_loop s2s cols (reader_rows metadata) (default_grades s2s n) = Inr g \<and>
         any_positive g)" for q g n
    using questions_loop_written [OF loop, of "py_strip line" q g n] unfolding evs by simp
  have iff: "(\<exists>g n. Write_file (py_strip line) q g n \<in> set evs) \<longleftrightarrow>
        (\<exists>cols g. map_of questions q = Some cols \<and>
           rows_loop s2s cols (reader_rows metadata) (default_grades s2s (length cols)) = Inr g \<and>
           (\<exists>(k, arr)\<in>set g. \<exists>x\<in>set arr. x \<noteq> 0))"
    if q: "q \<in> fst ` set questions" for q
  proof
    assume "\<exists>g n. Write_file (py_strip line) q g n \<in> set evs"
    then obtain g n cols where c: "map_of questions q = Some cols" "n = length cols"
      and g: "rows_loop s2s cols (reader_rows metadata) (default_grades s2s n) = Inr g"
      and p: "any_positive g"
      using w by blast
    have "\<forall>(k, arr)\<in>set g. \<forall>x\<in>set arr. 0 \<le> x"
      using g unfolding c(2) by (rule question_grades_nonneg)
    then have "\<exists>(k, arr)\<in>set g. \<exists>x\<in>set arr. x \<noteq> 0"
      using p by (simp only: any_positive_iff)
    then show "\<exists>cols g. map_of questions q = Some cols \<and>
           rows_loop s2s cols (reader_rows metadata) (default_grades s2s (length cols)) = Inr g \<and>
           (\<exists>(k, arr)\<in>set g. \<exists>x\<in>set arr. x \<noteq> 0)"
      using c g by blast
  next
    assume "\<exists>cols g. map_of questions q = Some cols \<and>
           rows_loop s2s cols (reader_rows metadata) (default_grades s2s (length cols)) = Inr g \<and>
           (\<exists>(k, arr)\<in>set g. \<exists>x\<in>set arr. x \<noteq> 0)"
    then obtain cols g where c: "map_of questions q = Some cols"
      and g: "rows_loop s2s cols (reader_rows metadata) (default_grades s2s (length cols)) = Inr g"
      and nz: "\<exists>(k, arr)\<in>set g. \<exists>x\<in>set arr. x \<noteq> 0"
      by blast
    have "\<forall>(k, arr)\<in>set g. \<forall>x\<in>set arr. 0 \<le> x"
      using g by (rule question_grades_nonneg)
    then have "any_positive g" using nz by (simp only: any_positive_iff)
    then have "Write_file (py_strip line) q g (length cols) \<in> set evs"
      using w [of q g "length cols"] q c g by blast
    then show "\<exists>g n. Write_file (py_strip line) q g n \<in> set evs" by blast
  qed
  show ?thesis
  proof (intro exI conjI ballI)
    show "stdin_line w = Some line" by (rule a)
    show "open_csv w (argv w ! 1) = Some scores" by (rule a)
    show "scores_loop (reader_rows scores) [] = Inr s2s" by (rule a)
    show "open_csv w (argv w ! 2) = Some metadata" by (rule a)
    show "fieldnames metadata = Some headers" by (rule a)
    show "parse_questions headers = Inr questions" by (rule a)
    show "(\<exists>g n. Write_file (py_strip line) q g n \<in> set evs) \<longleftrightarrow>
        (\<exists>cols g. map_of questions q = Some cols \<and>
           rows_loop s2s cols (reader_rows metadata) (default_grades s2s (length cols)) = Inr g \<and>
           (\<exists>(k, arr)\<in>set g. \<exists>x\<in>set arr. x \<noteq> 0))"
      if "q \<in> fst ` set questions" for q
      using that by (rule iff)
  qed
qed


theorem C3_file_iff_nonzero_witness:
  "main \<lparr>argv = [''generate.py'', ''scores.csv'', ''metadata.csv''],
         stdin_line = Some ''out'', makedirs_ok = top,
         open_csv = map_of
           [(''scores.csv'',
             \<lparr>fieldnames = Some [''SID'', ''Submission ID''], records = [ [''s1'', ''sub1''] ]\<rparr>),
            (''metadata.csv'',
             \<lparr>fieldnames = Some [''Student ID'', ''Question 2 Response'', ''Question 1 Response''],
              records = [ [''s1'', ''0'', ''3''] ]\<rparr>)],
         write_ok = top\<rparr>
   = (0, [Prompt, Makedirs ''out'', Print_found [1, 2],
          Write_file ''out'' 1 [(''sub1'', [3])] 1, Print_written 1 1 1, Print_skipped 2]) \<and>
   rows_loop [(''s1'', ''sub1'')] [''Question 2 Response'']
     [dict_row [''Student ID'', ''Question 2 Response'', ''Question 1 Response''] [''s1'', ''0'', ''3''] ]
     (default_grades [(''s1'', ''sub1'')] 1) = Inr [(''sub1'', [0])]"
  using C3_file_iff_nonzero [of
      "\<lparr>argv = [''generate.py'', ''scores.csv'', ''metadata.csv''],
         stdin_line = Some ''out'', makedirs_ok = top,
         open_csv = map_of
           [(''scores.csv'',
             \<lparr>fieldnames = Some [''SID'', ''Submission ID''], records = [ [''s1'', ''sub1''] ]\<rparr>),
            (''metadata.csv'',
             \<lparr>fieldnames = Some [''Student ID'', ''Question 2 Response'', ''Question 1 Response''],
              records = [ [''s1'', ''0'', ''3''] ]\<rparr>)],
         write_ok = top\<rparr>"
      "[Prompt, Makedirs ''out'', Print_found [1, 2],
          Write_file ''out'' 1 [(''sub1'', [3])] 1, Print_written 1 1 1, Print_skipped 2]"]
  by (simp add: main_def run_def reader_rows_def parse_questions_def match_question_def
      any_positive_def eval_defs Let_def)

lemma dict_row_key: "k \<in> set fns \<Longrightarrow> dict_row fns rec k \<noteq> None"
proof -
  assume k: "k \<in> set fns"
  let ?ys = "map Some rec @ replicate (length fns - length rec) None"
  have "length fns \<le> length ?ys" by simp
  then have "map fst (zip fns ?ys) = fns" by (simp add: map_fst_zip_take)
  then have "fst ` set (rev (zip fns ?ys)) = set fns"
    by (metis set_map set_rev)
  then show ?thesis using k unfolding dict_row_def by (simp add: map_of_eq_None_iff)
qed

lemma scores_loop_total:
  "\<forall>r\<in>set rows. r ''SID'' \<noteq> None \<and> r ''Submission ID'' \<noteq> None \<Longrightarrow>
   \<exists>m'. scores_loop rows m = Inr m'"
proof (induction rows arbitrary: m)
  case Nil
  then show ?case by simp
next
  case (Cons r rows)
  then have "\<And>m. \<exists>m'. scores_loop rows m = Inr m'" by simp
  then show ?case using Cons.prems unfolding scores_loop_step
    by (simp split: option.splits prod.splits)
qed

lemma rows_loop_total:
  "\<forall>r\<in>set rows. (\<exists>c. r ''Student ID'' = Some (Some c)) \<and> (\<forall>col\<in>set cols. r col \<noteq> None) \<Longrightarrow>
   \<exists>g'. rows_loop s2s cols rows g = Inr g'"
proof (induction rows arbitrary: g)
  case Nil
  then show ?case by simp
next
  case (Cons r rows)
  then have ih: "\<And>g. \<exists>g'. rows_loop s2s cols rows g = Inr g'" by simp
  obtain c where c: "r ''Student ID'' = Some (Some c)" using Cons.prems by auto
  have "\<forall>col\<in>set cols. r col \<noteq> None" using Cons.prems by simp
  then obtain res where res: "compute_grades r cols = Inr res"
    using compute_grades_eq by blast
  show ?case using c res ih by (simp split: option.splits)
qed

lemma questions_loop_total:
  assumes "\<forall>q\<in>set qs. \<exists>cols. map_of questions q = Some cols \<and>
             (\<forall>r\<in>set rows. \<forall>col\<in>set cols. r col \<noteq> None)"
    and "\<forall>r\<in>set rows. \<exists>c. r ''Student ID'' = Some (Some c)"
    and "\<forall>q. wok q"
  shows "snd (questions_loop wok folder s2s rows questions qs) = None"
  using assms(1)
proof (induction qs)
  case Nil
  then show ?case by simp
next
  case (Cons q qs)
  then obtain cols where cols: "map_of questions q = Some cols"
    and keys: "\<forall>r\<in>set rows. \<forall>col\<in>set cols. r col \<noteq> None"
    by auto
  have "\<forall>r\<in>set rows. (\<exists>c. r ''Student ID'' = Some (Some c)) \<and> (\<forall>col\<in>set cols. r col \<noteq> None)"
    using keys assms(2) by blast
  then obtain g where g: "rows_loop s2s cols rows (default_grades s2s (length cols)) = Inr g"
    using rows_loop_total by blast
  have ih: "snd (questions_loop wok folder s2s rows questions qs) = None"
    using Cons by simp
  obtain evs' where rest: "questions_loop wok folder s2s rows questions qs = (evs', None)"
    using ih by (cases "questions_loop wok folder s2s rows questions qs") auto
  have "wok q" using assms(3) by simp
  then show ?case using cols g rest by (simp add: Let_def)
qed

lemma parse_questions_cols:
  assumes "\<forall>h\<in>set headers. \<forall>g. match_question h = Some g \<longrightarrow> length g \<le> max_str_digits"
    and "parse_questions headers = Inr questions" and "map_of questions q = Some cols"
  shows "set cols \<subseteq> set headers"
proof -
  from parse_loop_spec [OF assms(1), of "[]"] assms(2) have
    "\<forall>N. map_of questions N =
        (if filter (\<lambda>h. \<exists>g. match_question h = Some g \<and> digits_value g = N) headers = []
         then map_of [] N
         else Some ((case map_of [] N of None \<Rightarrow> [] | Some l \<Rightarrow> l)
                    @ filter (\<lambda>h. \<exists>g. match_question h = Some g \<and> digits_value g = N) headers))"
    unfolding parse_questions_def by auto
  then have "cols = filter (\<lambda>h. \<exists>g. match_question h = Some g \<and> digits_value g = q) headers"
    using assms(3) by (auto split: if_splits)
  then show ?thesis by auto
qed

lemma parse_questions_total:
  "\<forall>h\<in>set headers. \<forall>g. match_question h = Some g \<longrightarrow> length g \<le> max_str_digits \<Longrightarrow>
   \<exists>questions. parse_questions headers = Inr questions"
  using parse_loop_spec [of headers "[]"] unfolding parse_questions_def by blast

lemma questions_loop_no_usage:
  "Print_usage u \<notin> set (fst (questions_loop wok folder s2s rows questions qs))"
  by (induction qs) (auto simp: Let_def split: option.splits sum.splits prod.splits)

lemma run_no_usage: "Print_usage u \<notin> set (fst (run w a b))"
  unfolding run_def Let_def
  using questions_loop_no_usage
  by (auto split: option.splits sum.splits prod.splits) (metis fst_conv)

lemma run_success:
  assumes "stdin_line w = Some line" and "makedirs_ok w (py_strip line)"
    and "open_csv w a = Some scores"
    and "\<forall>fs. fieldnames scores = Some fs \<longrightarrow> ''SID'' \<in> set fs \<and> ''Submission ID'' \<in> set fs"
    and "open_csv w b = Some metadata" and "fieldnames metadata = Some headers"
    and "\<forall>h\<in>set headers. \<forall>g. match_question h = Some g \<longrightarrow> length g \<le> max_str_digits"
    and "\<forall>rec\<in>set (records metadata). rec \<noteq> [] \<longrightarrow>
           (\<exists>c. dict_row headers rec ''Student ID'' = Some (Some c))"
    and "\<forall>q. write_ok w (py_strip line) q"
  shows "snd (run w a b) = None"
proof -
  have "\<forall>r\<in>set (reader_rows scores). r ''SID'' \<noteq> None \<and> r ''Submission ID'' \<noteq> None"
  proof (cases "fieldnames scores")
    case None
    then show ?thesis by (simp add: reader_rows_def)
  next
    case (Some fs)
    then have "''SID'' \<in> set fs" "''Submission ID'' \<in> set fs" using assms(4) by auto
    then have "\<And>rec. dict_row fs rec ''SID'' \<noteq> None \<and> dict_row fs rec ''Submission ID'' \<noteq> None"
      using dict_row_key by blast
    then show ?thesis using Some by (simp add: reader_rows_def)
  qed
  then obtain s2s where s2s: "scores_loop (reader_rows scores) [] = Inr s2s"
    using scores_loop_total by blast
  obtain questions where qs: "parse_questions headers = Inr questions"
    using parse_questions_total [OF assms(7)] by blast
  have rows: "reader_rows metadata = map (dict_row headers) (filter (\<lambda>r. r \<noteq> []) (records metadata))"
    using assms(6) by (simp add: reader_rows_def)
  have sid: "\<forall>r\<in>set (reader_rows metadata). \<exists>c. r ''Student ID'' = Some (Some c)"
    unfolding rows using assms(8) by auto
  have cols: "\<forall>q\<in>set (sort (map fst questions)). \<exists>cols. map_of questions q = Some cols \<and>
             (\<forall>r\<in>set (reader_rows metadata). \<forall>col\<in>set cols. r col \<noteq> None)"
  proof
    fix q assume "q \<in> set (sort (map fst questions))"
    then have "q \<in> fst ` set questions" by simp
    then obtain cols where c: "map_of questions q = Some cols"
      by (metis map_of_eq_None_iff not_Some_eq)
    have "set cols \<subseteq> set headers" using assms(7) qs c by (rule parse_questions_cols)
    then have "\<And>rec col. col \<in> set cols \<Longrightarrow> dict_row headers rec col \<noteq> None"
      using dict_row_key by blast
    then have "\<forall>r\<in>set (reader_rows metadata). \<forall>col\<in>set cols. r col \<noteq> None"
      unfolding rows by simp
    then show "\<exists>cols. map_of questions q = Some cols \<and>
             (\<forall>r\<in>set (reader_rows metadata). \<forall>col\<in>set cols. r col \<noteq> None)"
      using c by blast
  qed
  have "snd (questions_loop (write_ok w (py_strip line)) (py_strip line) s2s (reader_rows metadata)
          questions (sort (map fst questions))) = None"
    using cols sid assms(9) by (rule questions_loop_total)
  then show ?thesis
    unfolding run_def Let_def using assms(1,2,3,5,6) s2s qs
    by (auto split: prod.splits)
qed

lemma run_early_failure:
  assumes "stdin_line w = None \<or>
           (\<exists>line. stdin_line w = Some line \<and>
                   (\<not> makedirs_ok w (py_strip line) \<or> open_csv w a = None))"
  shows "snd (run w a b) \<noteq> None"
  using assms unfolding run_def Let_def by (auto split: option.splits)

lemma main_status:
  "length (argv w) = 3 \<Longrightarrow>
   fst (main w) = (if snd (run w (argv w ! 1) (argv w ! 2)) = None then 0 else 1)"
  unfolding main_def by (cases "run w (argv w ! 1) (argv w ! 2)") (auto split: option.splits)

text \<open>
  C8, as stated, fails: with two positional arguments and a scores file that cannot be
  opened, the run ends on the uncaught exception, with status 1 and no usage message.
\<close>

theorem C8_counterexample:
  "length (argv \<lparr>argv = [''generate.py'', ''scores.csv'', ''metadata.csv''],
                 stdin_line = Some ''out'', makedirs_ok = top, open_csv = map_of [],
                 write_ok = top\<rparr>) = 3 \<and>
   main \<lparr>argv = [''generate.py'', ''scores.csv'', ''metadata.csv''],
         stdin_line = Some ''out'', makedirs_ok = top, open_csv = map_of [],
         write_ok = top\<rparr> = (1, [Prompt, Makedirs ''out''])"
  by (simp add: main_def run_def py_strip_def strip_with_def py_isspace_def)

text \<open>
  C8, amended: for a run started with the program name in \<open>sys.argv\<close>, the usage message
  is printed exactly when the argument count is wrong, and the status is then 1. With
  two positional arguments the status is 1 when the run ends on an uncaught exception
  and 0 when it does not. It ends on one when the prompt meets the end of input, when
  the folder cannot be made, and when opening or reading the scores file raises. It
  ends on none, so the status is 0, when the prompt is answered, the folder can be made,
  both files are opened and read without an exception, the scores file has the columns
  \<open>SID\<close> and \<open>Submission ID\<close>, the metadata file has a header line in which no header
  that the pattern accepts has a question number of more than 4300 digits, every
  metadata record has a \<open>Student ID\<close> cell and the output files can be written.
\<close>

theorem C8_exit_status:
  assumes "argv w \<noteq> []"
  shows "((\<exists>u. Print_usage u \<in> set (snd (main w))) \<longleftrightarrow> length (argv w) \<noteq> 3) \<and>
         (length (argv w) \<noteq> 3 \<longrightarrow> fst (main w) = 1) \<and>
         (length (argv w) = 3 \<longrightarrow>
            fst (main w) = (if snd (run w (argv w ! 1) (argv w ! 2)) = None then 0 else 1)) \<and>
         (length (argv w) = 3 \<and>
          (stdin_line w = None \<or>
           (\<exists>line. stdin_line w = Some line \<and>
                   (\<not> makedirs_ok w (py_strip line) \<or> open_csv w (argv w ! 1) = None)))
          \<longrightarrow> fst (main w) = 1) \<and>
         (length (argv w) = 3 \<and>
          stdin_line w = Some line \<and> makedirs_ok w (py_strip line) \<and>
          open_csv w (argv w ! 1) = Some scores \<and>
          (\<forall>fs. fieldnames scores = Some fs \<longrightarrow> ''SID'' \<in> set fs \<and> ''Submission ID'' \<in> set fs) \<and>
          open_csv w (argv w ! 2) = Some metadata \<and> fieldnames metadata = Some headers \<and>
          (\<forall>h\<in>set headers. \<forall>g. match_question h = Some g \<longrightarrow> length g \<le> max_str_digits) \<and>
          (\<forall>rec\<in>set (records metadata). rec \<noteq> [] \<longrightarrow>
             (\<exists>c. dict_row headers rec ''Student ID'' = Some (Some c))) \<and>
          (\<forall>q. write_ok w (py_strip line) q)
          \<longrightarrow> fst (main w) = 0)"
proof (intro conjI impI)
  obtain a0 rest where a: "argv w = a0 # rest" using assms by (cases "argv w") auto
  show "(\<exists>u. Print_usage u \<in> set (snd (main w))) \<longleftrightarrow> length (argv w) \<noteq> 3"
  proof (cases "length (argv w) = 3")
    case True
    obtain evs r where run: "run w (argv w ! 1) (argv w ! 2) = (evs, r)"
      by (cases "run w (argv w ! 1) (argv w ! 2)")
    then have "snd (main w) = evs" using True unfolding main_def by (simp split: option.splits)
    moreover have "\<And>u. Print_usage u \<notin> set evs"
      using run_no_usage [of _ w "argv w ! 1" "argv w ! 2"] run by simp
    ultimately show ?thesis using True by simp
  next
    case False
    then show ?thesis unfolding main_def using a by simp
  qed
  show "fst (main w) = 1" if "length (argv w) \<noteq> 3"
    using that a unfolding main_def by simp
  show "fst (main w) = (if snd (run w (argv w ! 1) (argv w ! 2)) = None then 0 else 1)"
    if "length (argv w) = 3"
    using that by (rule main_status)
  show "fst (main w) = 1"
    if h: "length (argv w) = 3 \<and>
          (stdin_line w = None \<or>
           (\<exists>line. stdin_line w = Some line \<and>
                   (\<not> makedirs_ok w (py_strip line) \<or> open_csv w (argv w ! 1) = None)))"
  proof -
    have "snd (run w (argv w ! 1) (argv w ! 2)) \<noteq> None"
      using h by (intro run_early_failure) blast
    then show ?thesis using h main_status [of w] by simp
  qed
  show "fst (main w) = 0"
    if h: "length (argv w) = 3 \<and>
          stdin_line w = Some line \<and> makedirs_ok w (py_strip line) \<and>
          open_csv w (argv w ! 1) = Some scores \<and>
          (\<forall>fs. fieldnames scores = Some fs \<longrightarrow> ''SID'' \<in> set fs \<and> ''Submission ID'' \<in> set fs) \<and>
          open_csv w (argv w ! 2) = Some metadata \<and> fieldnames metadata = Some headers \<and>
          (\<forall>h\<in>set headers. \<forall>g. match_question h = Some g \<longrightarrow> length g \<le> max_str_digits) \<and>
          (\<forall>rec\<in>set (records metadata). rec \<noteq> [] \<longrightarrow>
             (\<exists>c. dict_row headers rec ''Student ID'' = Some (Some c))) \<and>
          (\<forall>q. write_ok w (py_strip line) q)"
  proof -
    have "snd (run w (argv w ! 1) (argv w ! 2)) = None"
      by (rule run_success [of w line _ scores _ metadata headers]) (use h in blast)+
    then show ?thesis using h main_status [of w] by simp
  qed
qed

theorem C8_exit_status_witness:
  "argv \<lparr>argv = [''generate.py'', ''scores.csv'', ''metadata.csv''],
         stdin_line = Some '' out '', makedirs_ok = top,
         open_csv = map_of
           [(''scores.csv'',
             \<lparr>fieldnames = Some [''SID'', ''Submission ID''], records = [ [''s1'', ''sub1''] ]\<rparr>),
            (''metadata.csv'',
             \<lparr>fieldnames = Some [''Student ID'', ''Question 1 Response''],
              records = [ [''s1'', ''4''] ]\<rparr>)],
         write_ok = top\<rparr> \<noteq> [] \<and>
   main \<lparr>argv = [''generate.py'', ''scores.csv'', ''metadata.csv''],
         stdin_line = Some '' out '', makedirs_ok = top,
         open_csv = map_of
           [(''scores.csv'',
             \<lparr>fieldnames = Some [''SID'', ''Submission ID''], records = [ [''s1'', ''sub1''] ]\<rparr>),
            (''metadata.csv'',
             \<lparr>fieldnames = Some [''Student ID'', ''Question 1 Response''],
              records = [ [''s1'', ''4''] ]\<rparr>)],
         write_ok = top\<rparr>
   = (0, [Prompt, Makedirs ''out'', Print_found [1],
          Write_file ''out'' 1 [(''sub1'', [4])] 1, Print_written 1 1 1]) \<and>
   match_question ''Student ID'' = None \<and>
   match_question ''Question 1 Response'' = Some ''1'' \<and>
   length ''1'' \<le> max_str_digits \<and>
   main \<lparr>argv = [''generate.py'', ''scores.csv''],
         stdin_line = Some ''out'', makedirs_ok = top, open_csv = map_of [], write_ok = top\<rparr>
   = (1, [Print_usage ''Usage: python generate.py <scores_csv> <submission_metadata_csv>'']) \<and>
   main \<lparr>argv = [''generate.py'', ''scores.csv'', ''metadata.csv''],
         stdin_line = None, makedirs_ok = top, open_csv = map_of [], write_ok = top\<rparr>
   = (1, [Prompt])"
  using C8_exit_status [of
      "\<lparr>argv = [''generate.py'', ''scores.csv'', ''metadata.csv''],
         stdin_line = Some '' out '', makedirs_ok = top,
         open_csv = map_of
           [(''scores.csv'',
             \<lparr>fieldnames = Some [''SID'', ''Submission ID''], records = [ [''s1'', ''sub1''] ]\<rparr>),
            (''metadata.csv'',
             \<lparr>fieldnames = Some [''Student ID'', ''Question 1 Response''],
              records = [ [''s1'', ''4''] ]\<rparr>)],
         write_ok = top\<rparr>"
      "'' out ''"
      "\<lparr>fieldnames = Some [''SID'', ''Submission ID''], records = [ [''s1'', ''sub1''] ]\<rparr>"
      "\<lparr>fieldnames = Some [''Student ID'', ''Question 1 Response''], records = [ [''s1'', ''4''] ]\<rparr>"
      "[''Student ID'', ''Question 1 Response'']"]
    C8_exit_status [of
      "\<lparr>argv = [''generate.py'', ''scores.csv''],
         stdin_line = Some ''out'', makedirs_ok = top, open_csv = map_of [], write_ok = top\<rparr>"]
    C8_exit_status [of
      "\<lparr>argv = [''generate.py'', ''scores.csv'', ''metadata.csv''],
         stdin_line = None, makedirs_ok = top, open_csv = map_of [], write_ok = top\<rparr>"]
  by (simp add: main_def run_def reader_rows_def parse_questions_def match_question_def
      any_positive_def eval_defs Let_def)


end
